theory Spec2Isabelle
  imports Main
begin

section \<open>The MCQ normalisation engine of \<^verbatim>\<open>app.py\<close>\<close>

text \<open>
  This theory embeds the three helper functions of \<^verbatim>\<open>src/app.py\<close> that turn the
  text returned by the generation provider into a list of question records:
  \<^verbatim>\<open>try_load_json\<close> (lines 203-215), \<^verbatim>\<open>parse_plain_mcqs\<close> (lines 217-284) and
  \<^verbatim>\<open>parse_mcqs\<close> (lines 286-307).

  Conventions of the embedding.
  \<^item> A Python \<^verbatim>\<open>str\<close> is a \<^typ>\<open>string\<close>. A \<^typ>\<open>char\<close> has eight bits, so the model
    covers texts whose code points are below 256 (Latin-1); the character classes
    below are Python's classes restricted to that range.
  \<^item> The regular expressions of the source are values of the datatype \<open>regex\<close>,
    run by a backtracking matcher \<open>rmatch\<close> that explores alternatives in the order
    of Python's \<^verbatim>\<open>re\<close> module (leftmost start, first alternative first, greedy
    repetitions longest first, lazy repetitions shortest first).
  \<^item> \<^verbatim>\<open>json.loads\<close> belongs to the Python standard library, not to the repository:
    it is a parameter \<open>loads\<close> of the functions that call it, returning either the
    exception it raised or the decoded value.
  \<^item> An exception is a value of \<open>pyexc\<close>; a function that can raise returns
    \<open>pyexc + 'a\<close>.
\<close>

subsection \<open>Python strings\<close>

definition NL :: char where "NL = CHR 0x0A"
definition CR :: char where "CR = CHR 0x0D"

text \<open>\<^verbatim>\<open>str.isspace\<close>, which is also the class \<^verbatim>\<open>\s\<close> of a \<^verbatim>\<open>str\<close> pattern.\<close>

definition is_space :: "char \<Rightarrow> bool" where
  "is_space c \<longleftrightarrow> c \<in> {CHR 0x09, CHR 0x0A, CHR 0x0B, CHR 0x0C, CHR 0x0D,
     CHR 0x1C, CHR 0x1D, CHR 0x1E, CHR 0x1F, CHR 0x20, CHR 0x85, CHR 0xA0}"

text \<open>The class \<^verbatim>\<open>\d\<close>: the decimal digits.\<close>

definition is_digit :: "char \<Rightarrow> bool" where
  "is_digit c \<longleftrightarrow> c \<in> set ''0123456789''"

text \<open>The line boundaries of \<^verbatim>\<open>str.splitlines\<close>.\<close>

definition is_linebreak :: "char \<Rightarrow> bool" where
  "is_linebreak c \<longleftrightarrow> c \<in> {CHR 0x0A, CHR 0x0B, CHR 0x0C, CHR 0x0D,
     CHR 0x1C, CHR 0x1D, CHR 0x1E, CHR 0x85}"

text \<open>\<^verbatim>\<open>s.strip()\<close>.\<close>

definition lstrip :: "string \<Rightarrow> string" where
  "lstrip s = dropWhile is_space s"

definition rstrip :: "string \<Rightarrow> string" where
  "rstrip s = rev (dropWhile is_space (rev s))"

definition strip :: "string \<Rightarrow> string" where
  "strip s = rstrip (lstrip s)"

text \<open>\<^verbatim>\<open>s.replace('\r\n', '\n')\<close>.\<close>

fun replace_crlf :: "string \<Rightarrow> string" where
  "replace_crlf [] = []"
| "replace_crlf [c] = [c]"
| "replace_crlf (c # d # s) =
     (if c = CR \<and> d = NL then NL # replace_crlf s else c # replace_crlf (d # s))"

text \<open>
  \<^verbatim>\<open>s.splitlines()\<close>: the lines without their boundaries; \<^verbatim>\<open>\r\n\<close> is one boundary;
  no empty last line after a final boundary. The accumulator \<open>cur\<close> is the current
  line, reversed.
\<close>

fun splitlines_acc :: "string \<Rightarrow> string \<Rightarrow> string list" where
  "splitlines_acc cur [] = (if cur = [] then [] else [rev cur])"
| "splitlines_acc cur [c] = (if is_linebreak c then [rev cur] else [rev (c # cur)])"
| "splitlines_acc cur (c # d # s) =
     (if c = CR \<and> d = NL then rev cur # splitlines_acc [] s
      else if is_linebreak c then rev cur # splitlines_acc [] (d # s)
      else splitlines_acc (c # cur) (d # s))"

definition splitlines :: "string \<Rightarrow> string list" where
  "splitlines s = splitlines_acc [] s"

text \<open>\<^verbatim>\<open>s.lower()\<close> on one character.\<close>

definition lower_char :: "char \<Rightarrow> char" where
  "lower_char c =
     (let n = (of_char c :: nat) in
      if (65 \<le> n \<and> n \<le> 90) \<or> (192 \<le> n \<and> n \<le> 222 \<and> n \<noteq> 215) then char_of (n + 32) else c)"

definition lower :: "string \<Rightarrow> string" where
  "lower s = map lower_char s"

text \<open>\<^verbatim>\<open>s.find(c)\<close> and \<^verbatim>\<open>s.rfind(c)\<close> for a one-character needle; \<open>None\<close> is \<^verbatim>\<open>-1\<close>.\<close>

fun find_char :: "char \<Rightarrow> string \<Rightarrow> nat option" where
  "find_char x [] = None"
| "find_char x (c # s) = (if c = x then Some 0 else map_option Suc (find_char x s))"

definition rfind_char :: "char \<Rightarrow> string \<Rightarrow> nat option" where
  "rfind_char x s =
     (case find_char x (rev s) of None \<Rightarrow> None | Some i \<Rightarrow> Some (length s - 1 - i))"

subsection \<open>Regular expressions\<close>

text \<open>
  The constructs that the five patterns of the source use. Repetition is only ever
  applied to a single character class there, so \<open>Star\<close>, \<open>Lazy\<close> and \<open>Opt\<close> take a
  class. A pattern is a list of items matched in sequence.
  \<^item> \<open>Cls P\<close>: one character of the class \<open>P\<close>;
  \<^item> \<open>Star P\<close>: \<^verbatim>\<open>P*\<close>, greedy;  \<open>Lazy P\<close>: \<^verbatim>\<open>P*?\<close>;  \<open>Opt P\<close>: \<^verbatim>\<open>P?\<close>, greedy;
  \<^item> \<open>Bos\<close>: \<^verbatim>\<open>^\<close> without the flag MULTILINE (start of the string);
  \<^item> \<open>Bol\<close>: \<^verbatim>\<open>^\<close> with MULTILINE (start of the string or just after a newline);
  \<^item> \<open>Eol\<close>: \<^verbatim>\<open>$\<close> with MULTILINE (end of the string or just before a newline);
  \<^item> \<open>Eos\<close>: \<^verbatim>\<open>\Z\<close>;
  \<^item> \<open>Alt p q\<close>: \<^verbatim>\<open>p|q\<close>;  \<open>Look p\<close>: \<^verbatim>\<open>(?=p)\<close>;  \<open>Grp n p\<close>: capturing group \<open>n\<close>;
  \<^item> \<open>GrpEnd n s\<close> is internal: it closes group \<open>n\<close>, which was entered when the
    remaining input was \<open>s\<close>.
\<close>

datatype regex =
    Cls "char \<Rightarrow> bool"
  | Star "char \<Rightarrow> bool"
  | Lazy "char \<Rightarrow> bool"
  | Opt "char \<Rightarrow> bool"
  | Bos
  | Bol
  | Eol
  | Eos
  | Alt "regex list" "regex list"
  | Look "regex list"
  | Grp nat "regex list"
  | GrpEnd nat string

type_synonym caps = "(nat \<times> string) list"

text \<open>
  The state of a match attempt is the character just before the current position
  (\<open>None\<close> at the start of the string) and the remaining input. \<open>rmatch k cs pv s\<close>
  matches the items \<open>k\<close> at that position, with the captures \<open>cs\<close> made so far, and
  returns the first success in backtracking order: the captures, the last character
  consumed and the input left after the match.
\<close>

function (sequential) rmatch ::
  "regex list \<Rightarrow> caps \<Rightarrow> char option \<Rightarrow> string \<Rightarrow> (caps \<times> char option \<times> string) option" where
  "rmatch [] cs pv s = Some (cs, pv, s)"
| "rmatch (Cls P # k) cs pv [] = None"
| "rmatch (Cls P # k) cs pv (c # s) = (if P c then rmatch k cs (Some c) s else None)"
| "rmatch (Star P # k) cs pv [] = rmatch k cs pv []"
| "rmatch (Star P # k) cs pv (c # s) =
     (if P c then
        (case rmatch (Star P # k) cs (Some c) s of
           Some r \<Rightarrow> Some r
         | None \<Rightarrow> rmatch k cs pv (c # s))
      else rmatch k cs pv (c # s))"
| "rmatch (Lazy P # k) cs pv [] = rmatch k cs pv []"
| "rmatch (Lazy P # k) cs pv (c # s) =
     (case rmatch k cs pv (c # s) of
        Some r \<Rightarrow> Some r
      | None \<Rightarrow> (if P c then rmatch (Lazy P # k) cs (Some c) s else None))"
| "rmatch (Opt P # k) cs pv [] = rmatch k cs pv []"
| "rmatch (Opt P # k) cs pv (c # s) =
     (if P c then
        (case rmatch k cs (Some c) s of
           Some r \<Rightarrow> Some r
         | None \<Rightarrow> rmatch k cs pv (c # s))
      else rmatch k cs pv (c # s))"
| "rmatch (Bos # k) cs pv s = (if pv = None then rmatch k cs pv s else None)"
| "rmatch (Bol # k) cs pv s =
     (if pv = None \<or> pv = Some NL then rmatch k cs pv s else None)"
| "rmatch (Eol # k) cs pv s =
     (if s = [] \<or> hd s = NL then rmatch k cs pv s else None)"
| "rmatch (Eos # k) cs pv s = (if s = [] then rmatch k cs pv s else None)"
| "rmatch (Alt p q # k) cs pv s =
     (case rmatch (p @ k) cs pv s of
        Some r \<Rightarrow> Some r
      | None \<Rightarrow> rmatch (q @ k) cs pv s)"
| "rmatch (Look p # k) cs pv s =
     (case rmatch p cs pv s of
        Some (cs', _, _) \<Rightarrow> rmatch k cs' pv s
      | None \<Rightarrow> None)"
| "rmatch (Grp n p # k) cs pv s = rmatch (p @ GrpEnd n s # k) cs pv s"
| "rmatch (GrpEnd n s0 # k) cs pv s =
     rmatch k ((n, take (length s0 - length s) s0) # cs) pv s"
  by pat_completeness auto
termination
  by (relation "inv_image (less_than <*lex*> less_than)
        (\<lambda>(k, cs, pv, s). (length s, size_list size k))") auto

text \<open>\<^verbatim>\<open>m.group(n)\<close>: the latest capture of group \<open>n\<close> (\<open>None\<close> if it took no part).\<close>

definition group :: "caps \<Rightarrow> nat \<Rightarrow> string option" where
  "group cs n = map_of cs n"

text \<open>
  \<^verbatim>\<open>re.match\<close>: the pattern at the start of the string.
\<close>

definition re_match :: "regex list \<Rightarrow> string \<Rightarrow> caps option" where
  "re_match p s = map_option fst (rmatch p [] None s)"

text \<open>
  \<^verbatim>\<open>pattern.search\<close> from the current position: the first position, from left to
  right, where the pattern matches. The result is the text skipped before the match
  (its length is \<^verbatim>\<open>m.start()\<close>, counted from the position where the search began),
  the captures, and the state after the match.
\<close>

fun search_from ::
  "regex list \<Rightarrow> char option \<Rightarrow> string \<Rightarrow> (string \<times> caps \<times> char option \<times> string) option" where
  "search_from p pv [] =
     (case rmatch p [] pv [] of
        Some (cs, pv', s') \<Rightarrow> Some ([], cs, pv', s')
      | None \<Rightarrow> None)"
| "search_from p pv (c # s) =
     (case rmatch p [] pv (c # s) of
        Some (cs, pv', s') \<Rightarrow> Some ([], cs, pv', s')
      | None \<Rightarrow>
         (case search_from p (Some c) s of
            Some (pre, r) \<Rightarrow> Some (c # pre, r)
          | None \<Rightarrow> None))"

definition re_search :: "regex list \<Rightarrow> string \<Rightarrow> (string \<times> caps) option" where
  "re_search p s =
     (case search_from p None s of
        Some (pre, cs, _, _) \<Rightarrow> Some (pre, cs)
      | None \<Rightarrow> None)"

text \<open>
  \<^verbatim>\<open>pattern.finditer\<close>: the successive non-overlapping matches, each with the text
  skipped since the previous match. The next search starts where the match ended.
  No pattern of the source can match the empty string (each needs two characters at
  least), so the special treatment that \<^verbatim>\<open>re\<close> gives to an empty match is not
  modelled: after an empty match the scan moves one character on.
\<close>

function finditer_from ::
  "regex list \<Rightarrow> char option \<Rightarrow> string \<Rightarrow> (string \<times> caps) list \<times> string" where
  "finditer_from p pv s =
     (case search_from p pv s of
        None \<Rightarrow> ([], s)
      | Some (pre, cs, pv', s') \<Rightarrow>
          (if length s' < length s then
             (case finditer_from p pv' s' of (ms, tail) \<Rightarrow> ((pre, cs) # ms, tail))
           else
             (case s of
                [] \<Rightarrow> ([(pre, cs)], [])
              | c # t \<Rightarrow>
                  (case finditer_from p (Some c) t of
                     (ms, tail) \<Rightarrow> ((pre, cs) # ms, tail)))))"
  by pat_completeness auto
termination
  by (relation "measure (\<lambda>(p, pv, s). length s)") auto

definition finditer :: "regex list \<Rightarrow> string \<Rightarrow> (string \<times> caps) list" where
  "finditer p s = fst (finditer_from p None s)"

text \<open>
  \<^verbatim>\<open>re.findall\<close> for a pattern with one group: the text of group 1 of every match
  (the empty string for a group that took no part).
\<close>

definition re_findall :: "regex list \<Rightarrow> string \<Rightarrow> string list" where
  "re_findall p s =
     map (\<lambda>(pre, cs). case group cs 1 of Some g \<Rightarrow> g | None \<Rightarrow> []) (finditer p s)"

text \<open>
  \<^verbatim>\<open>re.split\<close> for a pattern without groups: the texts between the matches, and the
  text after the last match.
\<close>

definition re_split :: "regex list \<Rightarrow> string \<Rightarrow> string list" where
  "re_split p s = (case finditer_from p None s of (ms, tail) \<Rightarrow> map fst ms @ [tail])"

subsection \<open>The patterns of the source\<close>

definition any_char :: "char \<Rightarrow> bool" where
  "any_char c \<longleftrightarrow> True"

definition not_newline :: "char \<Rightarrow> bool" where
  "not_newline c \<longleftrightarrow> c \<noteq> NL"

definition is_newline :: "char \<Rightarrow> bool" where
  "is_newline c \<longleftrightarrow> c = NL"

definition is_nl_or_cr :: "char \<Rightarrow> bool" where
  "is_nl_or_cr c \<longleftrightarrow> c = NL \<or> c = CR"

definition is_dot :: "char \<Rightarrow> bool" where
  "is_dot c \<longleftrightarrow> c = CHR ''.''"

text \<open>The class \<^verbatim>\<open>[a-dA-D]\<close>.\<close>

definition is_label :: "char \<Rightarrow> bool" where
  "is_label c \<longleftrightarrow> c \<in> set ''abcdABCD''"

text \<open>The classes \<^verbatim>\<open>[\.\)]\<close> and \<^verbatim>\<open>[:\s\-]\<close>.\<close>

definition is_dot_paren :: "char \<Rightarrow> bool" where
  "is_dot_paren c \<longleftrightarrow> c = CHR ''.'' \<or> c = CHR '')''"

definition is_sep :: "char \<Rightarrow> bool" where
  "is_sep c \<longleftrightarrow> c = CHR '':'' \<or> is_space c \<or> c = CHR ''-''"

text \<open>A literal word under the flag IGNORECASE.\<close>

definition same_letter :: "char \<Rightarrow> char \<Rightarrow> bool" where
  "same_letter x c \<longleftrightarrow> lower_char c = lower_char x"

definition word_ci :: "string \<Rightarrow> regex list" where
  "word_ci w = map (\<lambda>x. Cls (same_letter x)) w"

text \<open>
  Line 224, with the flags \<^verbatim>\<open>re.M | re.S\<close>:
  \<^verbatim>\<open>^\s*\d+\.\s*(.*?)(?=^\s*\d+\.|\Z)\<close>
\<close>

definition marker_pattern :: "regex list" where
  "marker_pattern =
     [Bol, Star is_space, Cls is_digit, Star is_digit, Cls is_dot, Star is_space,
      Grp 1 [Lazy any_char],
      Look [Alt [Bol, Star is_space, Cls is_digit, Star is_digit, Cls is_dot] [Eos]]]"

text \<open>Line 228: \<^verbatim>\<open>\n\s*\n\<close>\<close>

definition para_pattern :: "regex list" where
  "para_pattern = [Cls is_newline, Star is_space, Cls is_newline]"

text \<open>
  Lines 231-234, with the flags \<^verbatim>\<open>(?s)\<close> and \<^verbatim>\<open>re.M\<close>:
  \<^verbatim>\<open>(?:^|[\n\r])\s*([a-dA-D])[\.\)]\s*(.*?)(?=(?:\n\s*[a-dA-D][\.\)]\s*)|\Z)\<close>
\<close>

definition opt_pattern :: "regex list" where
  "opt_pattern =
     [Alt [Bol] [Cls is_nl_or_cr], Star is_space, Grp 1 [Cls is_label], Cls is_dot_paren,
      Star is_space, Grp 2 [Lazy any_char],
      Look [Alt [Cls is_newline, Star is_space, Cls is_label, Cls is_dot_paren, Star is_space]
                [Eos]]]"

text \<open>
  Line 245: \<^verbatim>\<open>(?mi)^\s*Answer[:\s\-]*([a-dA-D])(?:[\)\.]?)\s*(.*)$\<close>
\<close>

definition answer_pattern :: "regex list" where
  "answer_pattern =
     [Bol, Star is_space] @ word_ci ''Answer'' @
     [Star is_sep, Grp 1 [Cls is_label], Opt is_dot_paren, Star is_space,
      Grp 2 [Star not_newline], Eol]"

text \<open>
  Line 246: \<^verbatim>\<open>(?mi)^\s*Explanation[:\s\-]*(.*)$\<close>
\<close>

definition explanation_pattern :: "regex list" where
  "explanation_pattern =
     [Bol, Star is_space] @ word_ci ''Explanation'' @
     [Star is_sep, Grp 1 [Star not_newline], Eol]"

text \<open>
  Line 257, without flags: \<^verbatim>\<open>^([a-dA-D])[\.\)]\s*(.*)\<close>
\<close>

definition line_pattern :: "regex list" where
  "line_pattern =
     [Bos, Grp 1 [Cls is_label], Cls is_dot_paren, Star is_space, Grp 2 [Star not_newline]]"

subsection \<open>Records and exceptions\<close>

text \<open>
  The dictionary with the keys \<^verbatim>\<open>question\<close>, \<^verbatim>\<open>options\<close>, \<^verbatim>\<open>answer\<close> and
  \<^verbatim>\<open>explanation\<close> that both paths append to their result. The type of the values is a
  parameter: \<^verbatim>\<open>parse_plain_mcqs\<close> stores strings, \<^verbatim>\<open>parse_mcqs\<close> stores whatever the
  decoded JSON holds.
\<close>

record 'a mcq =
  question :: 'a
  options :: "'a list"
  answer :: 'a
  explanation :: 'a

datatype pyexc = JSONDecodeError | RecursionError | IndexError | TypeError | AttributeError

text \<open>
  \<^verbatim>\<open>m.group(n)\<close> followed by a string method: the method raises AttributeError on
  \<^verbatim>\<open>None\<close>, the value of a group that took no part in the match.
\<close>

definition group_str :: "caps \<Rightarrow> nat \<Rightarrow> pyexc + string" where
  "group_str cs n = (case group cs n of None \<Rightarrow> Inl AttributeError | Some g \<Rightarrow> Inr g)"

text \<open>\<^verbatim>\<open>ord(s) - ord('a')\<close>; \<^verbatim>\<open>ord\<close> raises TypeError unless its argument has length 1.\<close>

definition ord_minus_a :: "string \<Rightarrow> pyexc + int" where
  "ord_minus_a s =
     (case s of
        [c] \<Rightarrow> Inr (int (of_char c) - int (of_char (CHR ''a'')))
      | _ \<Rightarrow> Inl TypeError)"

subsection \<open>\<^verbatim>\<open>parse_plain_mcqs\<close>: the body of the loop over the blocks\<close>

text \<open>
  Line 241: the list of the pairs (lower-case label, stripped text) of the matches of
  \<open>opt_pattern\<close>.
\<close>

fun opt_pairs :: "(string \<times> caps) list \<Rightarrow> pyexc + (string \<times> string) list" where
  "opt_pairs [] = Inr []"
| "opt_pairs ((pre, cs) # ms) =
     (case group_str cs 1 of
        Inl e \<Rightarrow> Inl e
      | Inr g1 \<Rightarrow>
         (case group_str cs 2 of
            Inl e \<Rightarrow> Inl e
          | Inr g2 \<Rightarrow>
             (case opt_pairs ms of
                Inl e \<Rightarrow> Inl e
              | Inr r \<Rightarrow> Inr ((lower g1, strip g2) # r))))"

text \<open>
  Line 243: the text before the first match of \<open>opt_pattern\<close>, stripped; without a
  match the first line of the block, stripped (IndexError if there is no line).
\<close>

definition question_text :: "string \<Rightarrow> pyexc + string" where
  "question_text block =
     (case re_search opt_pattern block of
        Some (pre, cs) \<Rightarrow> Inr (strip pre)
      | None \<Rightarrow>
         (case splitlines block of
            [] \<Rightarrow> Inl IndexError
          | l # ls \<Rightarrow> Inr (strip l)))"

text \<open>Lines 248-252: the four slots, filled from the pairs in order.\<close>

definition set_slot :: "string list \<Rightarrow> int \<Rightarrow> string \<Rightarrow> string list" where
  "set_slot ol idx content = (if 0 \<le> idx \<and> idx < 4 then ol[nat idx := content] else ol)"

fun fill_slots :: "string list \<Rightarrow> (string \<times> string) list \<Rightarrow> pyexc + string list" where
  "fill_slots ol [] = Inr ol"
| "fill_slots ol ((letter, content) # r) =
     (case ord_minus_a letter of
        Inl e \<Rightarrow> Inl e
      | Inr idx \<Rightarrow> fill_slots (set_slot ol idx content) r)"

text \<open>
  Lines 255-261: the scan of the stripped non-blank lines after the first one.
\<close>

definition block_lines :: "string \<Rightarrow> string list" where
  "block_lines block = filter (\<lambda>ln. ln \<noteq> []) (map strip (splitlines block))"

fun scan_lines :: "string list \<Rightarrow> string list \<Rightarrow> pyexc + string list" where
  "scan_lines ol [] = Inr ol"
| "scan_lines ol (ln # lns) =
     (case re_match line_pattern ln of
        None \<Rightarrow> scan_lines ol lns
      | Some cs \<Rightarrow>
         (case group_str cs 1 of
            Inl e \<Rightarrow> Inl e
          | Inr g1 \<Rightarrow>
             (case ord_minus_a (lower g1) of
                Inl e \<Rightarrow> Inl e
              | Inr idx \<Rightarrow>
                 (if 0 \<le> idx \<and> idx < 4 then
                    (case group_str cs 2 of
                       Inl e \<Rightarrow> Inl e
                     | Inr g2 \<Rightarrow> scan_lines (ol[nat idx := strip g2]) lns)
                  else scan_lines ol lns))))"

text \<open>Lines 248-261 together: \<^verbatim>\<open>any(options_list)\<close> is true if some slot is not empty.\<close>

definition main_slots :: "string \<Rightarrow> pyexc + string list" where
  "main_slots block =
     (case opt_pairs (finditer opt_pattern block) of
        Inl e \<Rightarrow> Inl e
      | Inr opts \<Rightarrow> fill_slots [[], [], [], []] opts)"

definition any_slot :: "string list \<Rightarrow> bool" where
  "any_slot ol \<longleftrightarrow> (\<exists>x \<in> set ol. x \<noteq> [])"

definition block_options :: "string \<Rightarrow> pyexc + string list" where
  "block_options block =
     (case main_slots block of
        Inl e \<Rightarrow> Inl e
      | Inr options_list \<Rightarrow>
         (if \<not> any_slot options_list then scan_lines options_list (drop 1 (block_lines block))
          else Inr options_list))"

text \<open>Lines 263-273.\<close>

definition answer_text :: "string \<Rightarrow> string list \<Rightarrow> pyexc + string" where
  "answer_text block options_list =
     (case re_search answer_pattern block of
        None \<Rightarrow> Inr []
      | Some (pre, cs) \<Rightarrow>
         (case group_str cs 1 of
            Inl e \<Rightarrow> Inl e
          | Inr g1 \<Rightarrow>
             (case group_str cs 2 of
                Inl e \<Rightarrow> Inl e
              | Inr g2 \<Rightarrow>
                 (let ans_letter = lower g1; ans_extra = strip g2 in
                  case ord_minus_a ans_letter of
                    Inl e \<Rightarrow> Inl e
                  | Inr idx \<Rightarrow>
                     (if ans_extra \<noteq> [] then Inr (ans_letter @ '') '' @ ans_extra)
                      else
                        (let opt_text =
                               (if 0 \<le> idx \<and> idx < 4 then options_list ! nat idx else [])
                         in if opt_text \<noteq> [] then Inr (ans_letter @ '') '' @ opt_text)
                            else Inr ans_letter))))))"

text \<open>Line 275.\<close>

definition explanation_text :: "string \<Rightarrow> pyexc + string" where
  "explanation_text block =
     (case re_search explanation_pattern block of
        None \<Rightarrow> Inr []
      | Some (pre, cs) \<Rightarrow>
         (case group_str cs 1 of Inl e \<Rightarrow> Inl e | Inr g \<Rightarrow> Inr (strip g)))"

text \<open>Lines 241-282 for one stripped, non-empty block.\<close>

definition parse_block :: "string \<Rightarrow> pyexc + string mcq" where
  "parse_block block =
     (case opt_pairs (finditer opt_pattern block) of
        Inl e \<Rightarrow> Inl e
      | Inr opts \<Rightarrow>
         (case question_text block of
            Inl e \<Rightarrow> Inl e
          | Inr q_text \<Rightarrow>
             (case block_options block of
                Inl e \<Rightarrow> Inl e
              | Inr options_list \<Rightarrow>
                 (case answer_text block options_list of
                    Inl e \<Rightarrow> Inl e
                  | Inr a \<Rightarrow>
                     (case explanation_text block of
                        Inl e \<Rightarrow> Inl e
                      | Inr x \<Rightarrow>
                         Inr \<lparr>question = q_text, options = options_list,
                              answer = a, explanation = x\<rparr>)))))"

subsection \<open>\<^verbatim>\<open>parse_plain_mcqs\<close>\<close>

text \<open>Lines 236-282: the loop; a block that is empty once stripped is skipped.\<close>

fun parse_blocks :: "string list \<Rightarrow> pyexc + string mcq list" where
  "parse_blocks [] = Inr []"
| "parse_blocks (b # bs) =
     (let block = strip b in
      if block = [] then parse_blocks bs
      else
        (case parse_block block of
           Inl e \<Rightarrow> Inl e
         | Inr r \<Rightarrow>
            (case parse_blocks bs of
               Inl e \<Rightarrow> Inl e
             | Inr rs \<Rightarrow> Inr (r # rs))))"

text \<open>Line 219.\<close>

definition clean_text :: "string \<Rightarrow> string" where
  "clean_text text = strip (replace_crlf text)"

text \<open>Lines 224-228, on the cleaned text.\<close>

definition paragraphs :: "string \<Rightarrow> string list" where
  "paragraphs text = filter (\<lambda>b. b \<noteq> []) (map strip (re_split para_pattern text))"

definition segment :: "string \<Rightarrow> string list" where
  "segment text =
     (let blocks = re_findall marker_pattern text in
      if blocks = [] then paragraphs text else blocks)"

definition parse_plain_mcqs :: "string \<Rightarrow> pyexc + string mcq list" where
  "parse_plain_mcqs text0 =
     (let text = clean_text text0 in
      if text = [] then Inr [] else parse_blocks (segment text))"

subsection \<open>Decoded JSON and \<^verbatim>\<open>try_load_json\<close>\<close>

text \<open>
  The Python values that \<^verbatim>\<open>json.loads\<close> returns. \<open>JNull\<close> is \<^verbatim>\<open>None\<close>. A float is
  either \<open>Finite m e\<close>, the number \<open>m * 2^e\<close>, or one of the three special values;
  only whether it is zero matters below. A \<^verbatim>\<open>dict\<close> is the list of its items.
\<close>

datatype pyfloat = Finite int int | PosInf | NegInf | NaN

datatype json =
    JNull
  | JBool bool
  | JInt int
  | JFloat pyfloat
  | JStr string
  | JArr "json list"
  | JObj "(string \<times> json) list"

text \<open>The truth value of a Python object, as \<^verbatim>\<open>x if x else ""\<close> tests it.\<close>

fun truthy :: "json \<Rightarrow> bool" where
  "truthy JNull = False"
| "truthy (JBool b) = b"
| "truthy (JInt i) = (i \<noteq> 0)"
| "truthy (JFloat (Finite m e)) = (m \<noteq> 0)"
| "truthy (JFloat f) = True"
| "truthy (JStr s) = (s \<noteq> [])"
| "truthy (JArr xs) = (xs \<noteq> [])"
| "truthy (JObj kv) = (kv \<noteq> [])"

text \<open>\<^verbatim>\<open>d.get(key)\<close>: \<^verbatim>\<open>None\<close> for a missing key.\<close>

definition dict_get :: "(string \<times> json) list \<Rightarrow> string \<Rightarrow> json" where
  "dict_get kv key = (case map_of kv key of None \<Rightarrow> JNull | Some v \<Rightarrow> v)"

text \<open>\<^verbatim>\<open>text[start:end+1]\<close> for \<^verbatim>\<open>0 <= start\<close>.\<close>

definition slice_incl :: "string \<Rightarrow> nat \<Rightarrow> nat \<Rightarrow> string" where
  "slice_incl text start end = drop start (take (end + 1) text)"

text \<open>
  Lines 203-215. Both \<^verbatim>\<open>except Exception\<close> clauses catch every exception that
  \<open>loads\<close> raises; \<^verbatim>\<open>return None\<close> is \<open>Inr JNull\<close>.
\<close>

definition try_load_json :: "(string \<Rightarrow> pyexc + json) \<Rightarrow> string \<Rightarrow> pyexc + json" where
  "try_load_json loads text =
     (case loads text of
        Inr v \<Rightarrow> Inr v
      | Inl e \<Rightarrow>
         (let start = find_char (CHR ''['') text; end = rfind_char (CHR '']'') text in
          if start \<noteq> None \<and> end \<noteq> None \<and> the end > the start then
            (case loads (slice_incl text (the start) (the end)) of
               Inr v \<Rightarrow> Inr v
             | Inl e' \<Rightarrow> Inr JNull)
          else Inr JNull))"

subsection \<open>\<^verbatim>\<open>parse_mcqs\<close>\<close>

text \<open>Lines 291-304: the record appended for one element of the decoded list.\<close>

definition or_empty :: "json \<Rightarrow> json" where
  "or_empty v = (if truthy v then v else JStr [])"

definition fix_options :: "json \<Rightarrow> json list" where
  "fix_options opts =
     (case opts of
        JArr xs \<Rightarrow>
          (if length xs < 4 then xs @ replicate (4 - length xs) (JStr []) else take 4 xs)
      | _ \<Rightarrow> [JStr [], JStr [], JStr [], JStr []])"

definition normalize_item :: "json \<Rightarrow> json mcq" where
  "normalize_item item =
     (let q = (case item of JObj kv \<Rightarrow> dict_get kv ''question'' | _ \<Rightarrow> JNull);
          opts = (case item of JObj kv \<Rightarrow> dict_get kv ''options'' | _ \<Rightarrow> JNull);
          ans = (case item of JObj kv \<Rightarrow> dict_get kv ''answer'' | _ \<Rightarrow> JStr []);
          expl = (case item of JObj kv \<Rightarrow> dict_get kv ''explanation'' | _ \<Rightarrow> JStr [])
      in \<lparr>question = or_empty q, options = fix_options opts,
          answer = or_empty ans, explanation = or_empty expl\<rparr>)"

text \<open>A record of \<^verbatim>\<open>parse_plain_mcqs\<close> as Python values: every field is a string.\<close>

definition plain_record :: "string mcq \<Rightarrow> json mcq" where
  "plain_record r =
     \<lparr>question = JStr (question r), options = map JStr (options r),
      answer = JStr (answer r), explanation = JStr (explanation r)\<rparr>"

text \<open>Lines 286-307.\<close>

definition parse_mcqs :: "(string \<Rightarrow> pyexc + json) \<Rightarrow> string \<Rightarrow> pyexc + json mcq list" where
  "parse_mcqs loads text =
     (case try_load_json loads text of
        Inl e \<Rightarrow> Inl e
      | Inr loaded \<Rightarrow>
         (case loaded of
            JArr items \<Rightarrow> Inr (map normalize_item items)
          | _ \<Rightarrow>
             (case parse_plain_mcqs text of
                Inl e \<Rightarrow> Inl e
              | Inr rs \<Rightarrow> Inr (map plain_record rs))))"

text \<open>
  Two decoders for concrete runs. \<open>demo_loads\<close> decodes the three documents listed
  and rejects every other text; \<open>reject_loads\<close> rejects every text, as \<^verbatim>\<open>json.loads\<close>
  does on a text that is not JSON.
\<close>

definition demo_loads :: "string \<Rightarrow> pyexc + json" where
  "demo_loads s =
     (if s = ''[{\"question\": \"Q1\"}, 7]'' then
        Inr (JArr [JObj [(''question'', JStr ''Q1'')], JInt 7])
      else if s = ''[1]'' then Inr (JArr [JInt 1])
      else if s = ''{}'' then Inr (JObj [])
      else Inl JSONDecodeError)"

definition reject_loads :: "string \<Rightarrow> pyexc + json" where
  "reject_loads s = Inl JSONDecodeError"

subsection \<open>Auxiliary notions for the proofs\<close>

text \<open>The character before the current position once the text \<open>u\<close> has been consumed.\<close>

definition after :: "char option \<Rightarrow> string \<Rightarrow> char option" where
  "after pv u = (if u = [] then pv else Some (last u))"

text \<open>The least number of characters that an item consumes.\<close>

fun min_len :: "regex \<Rightarrow> nat" where
  "min_len (Cls P) = 1"
| "min_len (Alt p q) = min (sum_list (map min_len p)) (sum_list (map min_len q))"
| "min_len (Grp n p) = sum_list (map min_len p)"
| "min_len r = 0"

text \<open>Items without capturing groups.\<close>

fun no_grp :: "regex \<Rightarrow> bool" where
  "no_grp (Grp n p) = False"
| "no_grp (GrpEnd n s) = False"
| "no_grp (Alt p q) = (list_all no_grp p \<and> list_all no_grp q)"
| "no_grp (Look p) = list_all no_grp p"
| "no_grp r = True"

text \<open>Two runs of the matcher that differ only in the captures they started with.\<close>

definition caps_rel :: "caps \<Rightarrow> caps \<Rightarrow> (caps \<times> char option \<times> string) option \<Rightarrow> (caps \<times> char option \<times> string) option \<Rightarrow> bool" where
  "caps_rel cs1 cs2 r1 r2 \<longleftrightarrow>
     (case r1 of
        None \<Rightarrow> r2 = None
      | Some (c1, st) \<Rightarrow> (\<exists>new. c1 = new @ cs1 \<and> r2 = Some (new @ cs2, st)))"

text \<open>The captures of a match of a pattern with a label group and a text group.\<close>

definition label_caps :: "caps \<Rightarrow> bool" where
  "label_caps cs \<longleftrightarrow> (\<exists>c g. cs = [(2, g), (1, [c])] \<and> is_label c)"



text \<open>The record with every field empty.\<close>

definition blank_record :: "json mcq" where
  "blank_record =
     \<lparr>question = JStr [], options = [JStr [], JStr [], JStr [], JStr []],
      answer = JStr [], explanation = JStr []\<rparr>"

text \<open>
  The numbered-question marker alone, \<^verbatim>\<open>^\s*\d+\.\<close> with MULTILINE: the head of
  \<open>marker_pattern\<close>.
\<close>
definition marker_head :: "regex list" where
  "marker_head = [Bol, Star is_space, Cls is_digit, Star is_digit, Cls is_dot]"

text \<open>
  The text after the marker when the marker matches at the current position: line
  start, white space, one digit at least, a period.
\<close>
definition marker_rest :: "char option \<Rightarrow> string \<Rightarrow> string option" where
  "marker_rest pv s =
     (if pv = None \<or> pv = Some NL then
        (case dropWhile is_space s of
           [] \<Rightarrow> None
         | d # s2 \<Rightarrow>
            (if is_digit d then
               (case dropWhile is_digit s2 of
                  [] \<Rightarrow> None
                | c # s4 \<Rightarrow> if is_dot c then Some s4 else None)
             else None))
      else None)"

text \<open>The input of the scenario of the specification.\<close>
definition scenario_text :: string where
  "scenario_text =
     ''1. What is 2+2?\<newline>a) 3\<newline>b) 4\<newline>c) 5\<newline>d) 6\<newline>Answer: b\<newline>Explanation: Basic arithmetic''"

text \<open>A position where \<^verbatim>\<open>^\<close> with MULTILINE matches.\<close>
definition bol :: "char option \<Rightarrow> bool" where
  "bol pv \<longleftrightarrow> pv = None \<or> pv = Some NL"

text \<open>Items without \<^verbatim>\<open>^\<close> in its form without MULTILINE.\<close>
fun no_bos :: "regex \<Rightarrow> bool" where
  "no_bos Bos = False"
| "no_bos (Alt p q) = (list_all no_bos p \<and> list_all no_bos q)"
| "no_bos (Look p) = list_all no_bos p"
| "no_bos (Grp n p) = list_all no_bos p"
| "no_bos r = True"

text \<open>
  Two runs of the matcher from the same input that differ only in the character before
  the start: the results agree, except that a match that consumed nothing returns the
  character it started with.
\<close>
definition pv_rel ::
  "char option \<Rightarrow> char option \<Rightarrow> string \<Rightarrow> (caps \<times> char option \<times> string) option \<Rightarrow>
   (caps \<times> char option \<times> string) option \<Rightarrow> bool" where
  "pv_rel pv1 pv2 s r1 r2 \<longleftrightarrow>
     (case r1 of
        None \<Rightarrow> r2 = None
      | Some (c, p1, s1) \<Rightarrow>
          (if length s1 = length s then p1 = pv1 \<and> r2 = Some (c, pv2, s1)
           else r2 = Some (c, p1, s1)))"

text \<open>The label and the text after it when the text starts with a label and a period or bracket.\<close>
definition label_punct :: "string \<Rightarrow> (char \<times> string) option" where
  "label_punct s =
     (case s of
        c # d # s3 \<Rightarrow> if is_label c \<and> is_dot_paren d then Some (c, s3) else None
      | _ \<Rightarrow> None)"

text \<open>The lookahead that ends the text of an option: the end, or a newline before an option marker.\<close>
definition opt_ahead :: "string \<Rightarrow> bool" where
  "opt_ahead s \<longleftrightarrow>
     (case s of [] \<Rightarrow> True | c # s1 \<Rightarrow> c = NL \<and> label_punct (dropWhile is_space s1) \<noteq> None)"

text \<open>The text of an option and what follows it: the split at the first position where the lookahead holds.\<close>
fun opt_stop :: "string \<Rightarrow> string \<times> string" where
  "opt_stop [] = ([], [])"
| "opt_stop (c # s) =
     (if opt_ahead (c # s) then ([], c # s)
      else (case opt_stop s of (g, r) \<Rightarrow> (c # g, r)))"

text \<open>An option marker after optional white space: the label, the text of the option, the rest.\<close>
definition opt_body :: "string \<Rightarrow> (char \<times> string \<times> string) option" where
  "opt_body s =
     (case label_punct (dropWhile is_space s) of
        None \<Rightarrow> None
      | Some (c, s3) \<Rightarrow> (case opt_stop (dropWhile is_space s3) of (g, r) \<Rightarrow> Some (c, g, r)))"

text \<open>What \<open>opt_pattern\<close> matches at a position: at a line start, or else over a newline or return.\<close>
definition opt_here :: "char option \<Rightarrow> string \<Rightarrow> (char \<times> string \<times> string) option" where
  "opt_here pv s =
     (case (if bol pv then opt_body s else None) of
        Some x \<Rightarrow> Some x
      | None \<Rightarrow>
         (case s of
            [] \<Rightarrow> None
          | x # s' \<Rightarrow> if is_nl_or_cr x then opt_body s' else None))"

text \<open>A result of the matcher, up to the last character consumed.\<close>
definition res_is :: "(caps \<times> char option \<times> string) option \<Rightarrow> (caps \<times> string) option \<Rightarrow> bool" where
  "res_is r f \<longleftrightarrow>
     (case f of None \<Rightarrow> r = None | Some (cs, rest) \<Rightarrow> (\<exists>pv'. r = Some (cs, pv', rest)))"

text \<open>The text starts with the word, letter case ignored.\<close>
fun starts_ci :: "string \<Rightarrow> string \<Rightarrow> bool" where
  "starts_ci [] s = True"
| "starts_ci (x # w) [] = False"
| "starts_ci (x # w) (c # s) = (same_letter x c \<and> starts_ci w s)"

text \<open>The text after the closing punctuation that may follow the label of an answer.\<close>
definition skip_punct :: "string \<Rightarrow> string" where
  "skip_punct s = (case s of [] \<Rightarrow> [] | d # s' \<Rightarrow> if is_dot_paren d then s' else s)"

text \<open>What \<open>answer_pattern\<close> matches at a position: the label, the trailing text, the rest.\<close>
definition answer_here :: "char option \<Rightarrow> string \<Rightarrow> (char \<times> string \<times> string) option" where
  "answer_here pv s =
     (if bol pv \<and> starts_ci ''Answer'' (dropWhile is_space s) then
        (case dropWhile is_sep (drop 6 (dropWhile is_space s)) of
           [] \<Rightarrow> None
         | c # s3 \<Rightarrow>
            (if is_label c then
               Some (c, takeWhile not_newline (dropWhile is_space (skip_punct s3)),
                        dropWhile not_newline (dropWhile is_space (skip_punct s3)))
             else None))
      else None)"

text \<open>What \<open>explanation_pattern\<close> matches at a position: the text, the rest.\<close>
definition explanation_here :: "char option \<Rightarrow> string \<Rightarrow> (string \<times> string) option" where
  "explanation_here pv s =
     (if bol pv \<and> starts_ci ''Explanation'' (dropWhile is_space s) then
        Some (takeWhile not_newline (dropWhile is_sep (drop 11 (dropWhile is_space s))),
              dropWhile not_newline (dropWhile is_sep (drop 11 (dropWhile is_space s))))
      else None)"

text \<open>What \<open>line_pattern\<close> matches on a line: the label and the remainder.\<close>
definition line_here :: "string \<Rightarrow> (char \<times> string) option" where
  "line_here s =
     (case label_punct s of
        None \<Rightarrow> None
      | Some (c, s3) \<Rightarrow> Some (c, takeWhile not_newline (dropWhile is_space s3)))"

text \<open>
  A decoder for concrete runs of the structured path: it decodes the three documents
  listed, as \<^verbatim>\<open>json.loads\<close> does, and rejects every other text.
\<close>
definition sample_loads :: "string \<Rightarrow> pyexc + json" where
  "sample_loads s =
     (if s = ''[{\"question\": \"Q1\", \"options\": [\"x\", \"y\"], \"answer\": \"a) x\", \"explanation\": 0}, {\"question\": 5, \"options\": [\"p\", \"q\", \"r\", \"s\", \"t\"]}, {\"options\": \"ab\"}, 7]'' then
        Inr (JArr [JObj [(''question'', JStr ''Q1''), (''options'', JArr [JStr ''x'', JStr ''y'']),
                         (''answer'', JStr ''a) x''), (''explanation'', JInt 0)],
                   JObj [(''question'', JInt 5),
                         (''options'', JArr [JStr ''p'', JStr ''q'', JStr ''r'', JStr ''s'', JStr ''t''])],
                   JObj [(''options'', JStr ''ab'')],
                   JInt 7])
      else if s = ''[{\"question\": 5}]'' then Inr (JArr [JObj [(''question'', JInt 5)]])
      else if s = ''[7]'' then Inr (JArr [JInt 7])
      else Inl JSONDecodeError)"

text \<open>A Python value that is a text.\<close>
definition is_text :: "json \<Rightarrow> bool" where
  "is_text v = (case v of JStr s \<Rightarrow> True | _ \<Rightarrow> False)"

text \<open>
  The canonical record of the specification: the question, the answer and the
  explanation are texts, and the options are exactly four texts.
\<close>
definition canonical :: "json mcq \<Rightarrow> bool" where
  "canonical r \<longleftrightarrow>
     is_text (question r) \<and> length (options r) = 4 \<and> list_all is_text (options r) \<and>
     is_text (answer r) \<and> is_text (explanation r)"

text \<open>
  An element of a decoded list whose values are of the shape that the prompt asks for,
  where they are present: a text or a false value under \<^verbatim>\<open>question\<close>, \<^verbatim>\<open>answer\<close> and
  \<^verbatim>\<open>explanation\<close>, a list of texts under \<^verbatim>\<open>options\<close>.
\<close>
definition text_item :: "json \<Rightarrow> bool" where
  "text_item item =
     (case item of
        JObj kv \<Rightarrow>
          list_all (\<lambda>k. case map_of kv k of None \<Rightarrow> True | Some v \<Rightarrow> is_text v \<or> \<not> truthy v)
            [''question'', ''answer'', ''explanation''] \<and>
          (case map_of kv ''options'' of
             None \<Rightarrow> True
           | Some (JArr xs) \<Rightarrow> list_all is_text xs
           | Some _ \<Rightarrow> False)
      | _ \<Rightarrow> True)"

section \<open>Properties\<close>

lemma after_Nil [simp]: "after pv [] = pv"
  by (simp add: after_def)

lemma after_Cons [simp]: "after pv (c # u) = after (Some c) u"
  by (simp add: after_def)

lemma after_append [simp]: "after pv (u @ v) = after (after pv u) v"
  by (induction u arbitrary: pv) simp_all

lemma rmatch_min_len:
  "rmatch k cs pv s = Some (cs', pv', s') \<Longrightarrow> length s' + sum_list (map min_len k) \<le> length s"
proof (induction k cs pv s arbitrary: cs' pv' s' rule: rmatch.induct)
  case (14 p q k cs pv s)
  then show ?case by (fastforce split: option.splits)
next
  case (15 p k cs pv s)
  then show ?case by (fastforce split: option.splits prod.splits)
qed (fastforce split: if_splits option.splits)+

lemma rmatch_Star_split:
  "rmatch (Star P # k) cs pv s = Some r \<Longrightarrow>
   \<exists>u t. s = u @ t \<and> (\<forall>c\<in>set u. P c) \<and> rmatch k cs (after pv u) t = Some r"
proof (induction s arbitrary: pv)
  case Nil
  then show ?case by simp
next
  case (Cons c s)
  show ?case
  proof (cases "P c \<and> rmatch (Star P # k) cs (Some c) s = Some r")
    case True
    then obtain u t where "s = u @ t" "\<forall>c\<in>set u. P c" "rmatch k cs (after (Some c) u) t = Some r"
      using Cons.IH by blast
    then have "c # s = (c # u) @ t \<and> (\<forall>x\<in>set (c # u). P x) \<and> rmatch k cs (after pv (c # u)) t = Some r"
      using True by simp
    then show ?thesis by blast
  next
    case False
    then have "rmatch k cs pv (c # s) = Some r"
      using Cons.prems by (auto split: if_splits option.splits)
    then have "c # s = [] @ (c # s) \<and> (\<forall>x\<in>set []. P x) \<and> rmatch k cs (after pv []) (c # s) = Some r"
      by simp
    then show ?thesis by blast
  qed
qed

lemma rmatch_Lazy_split:
  "rmatch (Lazy P # k) cs pv s = Some r \<Longrightarrow>
   \<exists>u t. s = u @ t \<and> (\<forall>c\<in>set u. P c) \<and> rmatch k cs (after pv u) t = Some r"
proof (induction s arbitrary: pv)
  case Nil
  then show ?case by simp
next
  case (Cons c s)
  show ?case
  proof (cases "rmatch k cs pv (c # s) = Some r")
    case True
    then have "c # s = [] @ (c # s) \<and> (\<forall>x\<in>set []. P x) \<and> rmatch k cs (after pv []) (c # s) = Some r"
      by simp
    then show ?thesis by blast
  next
    case False
    then have *: "P c" "rmatch (Lazy P # k) cs (Some c) s = Some r"
      using Cons.prems by (auto split: if_splits option.splits)
    then obtain u t where "s = u @ t" "\<forall>c\<in>set u. P c" "rmatch k cs (after (Some c) u) t = Some r"
      using Cons.IH by blast
    then have "c # s = (c # u) @ t \<and> (\<forall>x\<in>set (c # u). P x) \<and> rmatch k cs (after pv (c # u)) t = Some r"
      using * by simp
    then show ?thesis by blast
  qed
qed

lemma rmatch_Opt_split:
  "rmatch (Opt P # k) cs pv s = Some r \<Longrightarrow>
   \<exists>u t. s = u @ t \<and> (\<forall>c\<in>set u. P c) \<and> length u \<le> 1 \<and> rmatch k cs (after pv u) t = Some r"
proof (cases s)
  case Nil
  assume "rmatch (Opt P # k) cs pv s = Some r"
  then show ?thesis using Nil by simp
next
  case (Cons c s1)
  assume a: "rmatch (Opt P # k) cs pv s = Some r"
  show ?thesis
  proof (cases "P c \<and> rmatch k cs (Some c) s1 = Some r")
    case True
    then have "s = [c] @ s1 \<and> (\<forall>x\<in>set [c]. P x) \<and> length [c] \<le> 1 \<and> rmatch k cs (after pv [c]) s1 = Some r"
      using Cons by simp
    then show ?thesis by blast
  next
    case False
    then have "rmatch k cs pv (c # s1) = Some r"
      using a Cons by (auto split: if_splits option.splits)
    then have "s = [] @ s \<and> (\<forall>x\<in>set []. P x) \<and> length ([]::string) \<le> 1 \<and> rmatch k cs (after pv []) s = Some r"
      using Cons by simp
    then show ?thesis by blast
  qed
qed

lemma rmatch_no_grp:
  "rmatch k cs pv s = Some (cs', pv', s') \<Longrightarrow> list_all no_grp k \<Longrightarrow> cs' = cs"
proof (induction k cs pv s arbitrary: cs' pv' s' rule: rmatch.induct)
  case (14 p q k cs pv s)
  then show ?case by (fastforce split: option.splits)
next
  case (15 p k cs pv s)
  then show ?case by (fastforce split: option.splits prod.splits)
qed (fastforce split: if_splits option.splits)+

lemma caps_rel_NoneI: "r1 = None \<Longrightarrow> r2 = None \<Longrightarrow> caps_rel cs1 cs2 r1 r2"
  by (simp add: caps_rel_def)

lemma rmatch_caps_rel:
  "caps_rel cs1 cs2 (rmatch k cs1 pv s) (rmatch k cs2 pv s)"
proof (induction k cs1 pv s arbitrary: cs2 rule: rmatch.induct)
  case (1 cs pv s)
  then show ?case by (simp add: caps_rel_def)
next
  case (5 P k cs pv c s)
  show ?case
  proof (cases "P c")
    case True
    show ?thesis
    proof (cases "rmatch (Star P # k) cs (Some c) s")
      case None
      then have "rmatch (Star P # k) cs2 (Some c) s = None"
        using 5(1)[OF True, of cs2] by (simp add: caps_rel_def)
      then show ?thesis using True None 5(2)[OF True None, of cs2] by simp
    next
      case (Some a)
      then show ?thesis using True 5(1)[OF True, of cs2]
        by (auto simp: caps_rel_def split: prod.splits)
    qed
  next
    case False
    then show ?thesis using 5(3)[OF False, of cs2] by simp
  qed
next
  case (7 P k cs pv c s)
  show ?case
  proof (cases "rmatch k cs pv (c # s)")
    case None
    then have "rmatch k cs2 pv (c # s) = None"
      using 7(1)[of cs2] by (simp add: caps_rel_def)
    then show ?thesis using None 7(2)[OF None, of cs2] by (simp add: caps_rel_def)
  next
    case (Some a)
    then show ?thesis using 7(1)[of cs2]
      by (auto simp: caps_rel_def split: prod.splits)
  qed
next
  case (9 P k cs pv c s)
  show ?case
  proof (cases "P c")
    case True
    show ?thesis
    proof (cases "rmatch k cs (Some c) s")
      case None
      then have "rmatch k cs2 (Some c) s = None"
        using 9(1)[OF True, of cs2] by (simp add: caps_rel_def)
      then show ?thesis using True None 9(2)[OF True None, of cs2] by simp
    next
      case (Some a)
      then show ?thesis using True 9(1)[OF True, of cs2]
        by (auto simp: caps_rel_def split: prod.splits)
    qed
  next
    case False
    then show ?thesis using 9(3)[OF False, of cs2] by simp
  qed
next
  case (14 p q k cs pv s)
  show ?case
  proof (cases "rmatch (p @ k) cs pv s")
    case None
    then have "rmatch (p @ k) cs2 pv s = None"
      using 14(1)[of cs2] by (simp add: caps_rel_def)
    then show ?thesis using None 14(2)[OF None, of cs2] by simp
  next
    case (Some a)
    then show ?thesis using 14(1)[of cs2]
      by (auto simp: caps_rel_def split: prod.splits)
  qed
next
  case (15 p k cs pv s)
  show ?case
  proof (cases "rmatch p cs pv s")
    case None
    then have "rmatch p cs2 pv s = None"
      using 15(1)[of cs2] by (simp add: caps_rel_def)
    then show ?thesis using None by (simp add: caps_rel_def)
  next
    case (Some a)
    obtain c1 pv1 s1 where a: "a = (c1, pv1, s1)" by (cases a) auto
    then obtain new where n: "c1 = new @ cs" "rmatch p cs2 pv s = Some (new @ cs2, pv1, s1)"
      using Some 15(1)[of cs2] by (auto simp: caps_rel_def)
    have "caps_rel (new @ cs) (new @ cs2) (rmatch k (new @ cs) pv s) (rmatch k (new @ cs2) pv s)"
      using 15(2)[OF Some[unfolded a n(1)] refl refl, of "new @ cs2"] .
    then have "caps_rel cs cs2 (rmatch k (new @ cs) pv s) (rmatch k (new @ cs2) pv s)"
      by (auto simp: caps_rel_def split: option.splits)
    then show ?thesis using Some a n by simp
  qed
next
  case (17 n s0 k cs pv s)
  have "caps_rel ((n, take (length s0 - length s) s0) # cs) ((n, take (length s0 - length s) s0) # cs2)
          (rmatch k ((n, take (length s0 - length s) s0) # cs) pv s)
          (rmatch k ((n, take (length s0 - length s) s0) # cs2) pv s)"
    using 17[of "(n, take (length s0 - length s) s0) # cs2"] .
  then show ?case by (auto simp: caps_rel_def split: option.splits)
qed (auto simp: caps_rel_def split: option.splits prod.splits)

lemma rmatch_None_caps: "rmatch k cs pv s = None \<longleftrightarrow> rmatch k [] pv s = None"
  using rmatch_caps_rel[of cs "[]" k pv s] rmatch_caps_rel[of "[]" cs k pv s]
  by (auto simp: caps_rel_def split: option.splits)

lemma rmatch_Some_caps:
  "rmatch k [] pv s = Some (new, st) \<Longrightarrow> rmatch k cs pv s = Some (new @ cs, st)"
  using rmatch_caps_rel[of "[]" cs k pv s] by (auto simp: caps_rel_def)

lemma rmatch_Look_no_grp:
  "list_all no_grp p \<Longrightarrow>
   rmatch (Look p # k) cs pv s = (if rmatch p [] pv s = None then None else rmatch k cs pv s)"
proof (cases "rmatch p cs pv s")
  case None
  assume "list_all no_grp p"
  have "rmatch p [] pv s = None" using None rmatch_None_caps by blast
  then show ?thesis using None by simp
next
  case (Some a)
  assume ng: "list_all no_grp p"
  obtain c1 pv1 s1 where a: "a = (c1, pv1, s1)" by (cases a) auto
  have "c1 = cs" using rmatch_no_grp[OF Some[unfolded a] ng] .
  moreover have "rmatch p [] pv s \<noteq> None" using Some rmatch_None_caps[of p cs pv s] by simp
  ultimately show ?thesis using Some a by auto
qed

lemma rmatch_Cls:
  "rmatch (Cls P # k) cs pv s =
     (case s of [] \<Rightarrow> None | c # t \<Rightarrow> if P c then rmatch k cs (Some c) t else None)"
  by (cases s) auto

lemma rmatch_ClsE:
  "rmatch (Cls P # k) cs pv s = Some r \<Longrightarrow>
   \<exists>c t. s = c # t \<and> P c \<and> rmatch k cs (Some c) t = Some r"
  by (cases s) (auto split: if_splits)

lemma rmatch_Grp_ClsE:
  "rmatch (Grp n [Cls P] # k) cs pv s = Some r \<Longrightarrow>
   \<exists>c t. s = c # t \<and> P c \<and> rmatch k ((n, [c]) # cs) (Some c) t = Some r"
  by (cases s) (auto split: if_splits)

lemma rmatch_AltE:
  "rmatch (Alt p q # k) cs pv s = Some r \<Longrightarrow>
   rmatch (p @ k) cs pv s = Some r \<or> rmatch (q @ k) cs pv s = Some r"
  by (auto split: option.splits)

lemma rmatch_BolE:
  "rmatch (Bol # k) cs pv s = Some r \<Longrightarrow>
   (pv = None \<or> pv = Some NL) \<and> rmatch k cs pv s = Some r"
  by (auto split: if_splits)

lemma rmatch_BosE:
  "rmatch (Bos # k) cs pv s = Some r \<Longrightarrow> pv = None \<and> rmatch k cs pv s = Some r"
  by (auto split: if_splits)

lemma rmatch_Grp_Lazy_Look:
  assumes "rmatch [Grp n [Lazy P], Look L] cs pv s = Some (cs', pv', s')" "list_all no_grp L"
  shows "\<exists>g. s = g @ s' \<and> cs' = (n, g) # cs \<and> pv' = after pv g \<and> rmatch L [] pv' s' \<noteq> None"
proof -
  have h: "rmatch (Lazy P # [GrpEnd n s, Look L]) cs pv s = Some (cs', pv', s')"
    using assms(1) by simp
  from rmatch_Lazy_split[OF h]
  obtain u t where ut: "s = u @ t" "rmatch [GrpEnd n s, Look L] cs (after pv u) t = Some (cs', pv', s')"
    by blast
  then have "rmatch [Look L] ((n, u) # cs) (after pv u) t = Some (cs', pv', s')"
    by simp
  moreover have "rmatch [Look L] ((n, u) # cs) (after pv u) t =
      (if rmatch L [] (after pv u) t = None then None else rmatch [] ((n, u) # cs) (after pv u) t)"
    by (rule rmatch_Look_no_grp[OF assms(2)])
  ultimately have "rmatch L [] (after pv u) t \<noteq> None \<and> cs' = (n, u) # cs \<and> pv' = after pv u \<and> s' = t"
    by (cases "rmatch L [] (after pv u) t = None") auto
  then show ?thesis using ut(1) by blast
qed

lemma rmatch_Grp_Star_end:
  assumes "rmatch (Grp n [Star P] # k) cs pv s = Some (cs', pv', s')" "list_all no_grp k"
  shows "\<exists>g. cs' = (n, g) # cs"
proof -
  have h: "rmatch (Star P # GrpEnd n s # k) cs pv s = Some (cs', pv', s')"
    using assms(1) by simp
  from rmatch_Star_split[OF h]
  obtain u t where ut: "s = u @ t" "rmatch (GrpEnd n s # k) cs (after pv u) t = Some (cs', pv', s')"
    by blast
  then have "rmatch k ((n, u) # cs) (after pv u) t = Some (cs', pv', s')"
    by simp
  from rmatch_no_grp[OF this assms(2)] show ?thesis by blast
qed

lemma word_ci_Nil [simp]: "word_ci [] = []"
  by (simp add: word_ci_def)

lemma word_ci_Cons [simp]: "word_ci (x # w) = Cls (same_letter x) # word_ci w"
  by (simp add: word_ci_def)

lemma rmatch_word_ci:
  "rmatch (word_ci w @ k) cs pv s = Some r \<Longrightarrow> \<exists>pv1 s1. rmatch k cs pv1 s1 = Some r"
proof (induction w arbitrary: pv s)
  case Nil
  then show ?case by auto
next
  case (Cons x w)
  from Cons.prems have "rmatch (Cls (same_letter x) # (word_ci w @ k)) cs pv s = Some r"
    by simp
  from rmatch_ClsE[OF this]
  obtain c t where "rmatch (word_ci w @ k) cs (Some c) t = Some r"
    by blast
  from Cons.IH[OF this] show ?case .
qed

lemma opt_pattern_shape:
  assumes "rmatch opt_pattern [] pv s = Some (cs, pv', s')"
  shows "\<exists>c g. cs = [(2, g), (1, [c])] \<and> is_label c"
proof -
  let ?L = "[Alt [Cls is_newline, Star is_space, Cls is_label, Cls is_dot_paren, Star is_space] [Eos]]"
  let ?K3 = "[Grp 2 [Lazy any_char], Look ?L]"
  let ?K2 = "Cls is_dot_paren # Star is_space # ?K3"
  let ?K1 = "Star is_space # Grp 1 [Cls is_label] # ?K2"
  have "rmatch (Alt [Bol] [Cls is_nl_or_cr] # ?K1) [] pv s = Some (cs, pv', s')"
    using assms by (simp add: opt_pattern_def)
  from rmatch_AltE[OF this]
  have "rmatch (Bol # ?K1) [] pv s = Some (cs, pv', s') \<or>
        rmatch (Cls is_nl_or_cr # ?K1) [] pv s = Some (cs, pv', s')"
    by simp
  then obtain pv1 s1 where h1: "rmatch ?K1 [] pv1 s1 = Some (cs, pv', s')"
    using rmatch_BolE[of ?K1 "[]" pv s "(cs, pv', s')"]
          rmatch_ClsE[of is_nl_or_cr ?K1 "[]" pv s "(cs, pv', s')"] by blast
  from rmatch_Star_split[OF h1]
  obtain pv2 s2 where h2: "rmatch (Grp 1 [Cls is_label] # ?K2) [] pv2 s2 = Some (cs, pv', s')"
    by blast
  from rmatch_Grp_ClsE[OF h2]
  obtain c s3 where c: "is_label c" and h3: "rmatch ?K2 [(1, [c])] (Some c) s3 = Some (cs, pv', s')"
    by blast
  from rmatch_ClsE[OF h3]
  obtain pv4 s4 where h4: "rmatch (Star is_space # ?K3) [(1, [c])] pv4 s4 = Some (cs, pv', s')"
    by blast
  from rmatch_Star_split[OF h4]
  obtain pv5 s5 where h5: "rmatch ?K3 [(1, [c])] pv5 s5 = Some (cs, pv', s')"
    by blast
  have "list_all no_grp ?L" by simp
  from rmatch_Grp_Lazy_Look[OF h5 this] obtain g where "cs = (2, g) # [(1, [c])]"
    by blast
  then show ?thesis using c by blast
qed

lemma marker_pattern_shape:
  assumes "rmatch marker_pattern [] pv s = Some (cs, pv', s')"
  shows "\<exists>g. cs = [(1, g)]"
proof -
  let ?L = "[Alt [Bol, Star is_space, Cls is_digit, Star is_digit, Cls is_dot] [Eos]]"
  let ?K3 = "[Grp 1 [Lazy any_char], Look ?L]"
  have "rmatch (Bol # Star is_space # Cls is_digit # Star is_digit # Cls is_dot # Star is_space # ?K3) [] pv s
         = Some (cs, pv', s')"
    using assms by (simp add: marker_pattern_def)
  from rmatch_BolE[OF this]
  have h0: "rmatch (Star is_space # Cls is_digit # Star is_digit # Cls is_dot # Star is_space # ?K3) [] pv s
         = Some (cs, pv', s')"
    by blast
  from rmatch_Star_split[OF h0]
  obtain pv1 s1 where h1: "rmatch (Cls is_digit # Star is_digit # Cls is_dot # Star is_space # ?K3) [] pv1 s1 = Some (cs, pv', s')"
    by blast
  from rmatch_ClsE[OF h1]
  obtain pv2 s2 where h2: "rmatch (Star is_digit # Cls is_dot # Star is_space # ?K3) [] pv2 s2 = Some (cs, pv', s')"
    by blast
  from rmatch_Star_split[OF h2]
  obtain pv3 s3 where h3: "rmatch (Cls is_dot # Star is_space # ?K3) [] pv3 s3 = Some (cs, pv', s')"
    by blast
  from rmatch_ClsE[OF h3]
  obtain pv4 s4 where h4: "rmatch (Star is_space # ?K3) [] pv4 s4 = Some (cs, pv', s')"
    by blast
  from rmatch_Star_split[OF h4]
  obtain pv5 s5 where h5: "rmatch ?K3 [] pv5 s5 = Some (cs, pv', s')"
    by blast
  have "list_all no_grp ?L" by simp
  from rmatch_Grp_Lazy_Look[OF h5 this] show ?thesis
    by blast
qed

lemma line_pattern_shape:
  assumes "rmatch line_pattern [] pv s = Some (cs, pv', s')"
  shows "\<exists>c g. cs = [(2, g), (1, [c])] \<and> is_label c"
proof -
  let ?K3 = "[Grp 2 [Star not_newline]]"
  let ?K2 = "Cls is_dot_paren # Star is_space # ?K3"
  have "rmatch (Bos # Grp 1 [Cls is_label] # ?K2) [] pv s = Some (cs, pv', s')"
    using assms by (simp add: line_pattern_def)
  from rmatch_BosE[OF this]
  have h0: "rmatch (Grp 1 [Cls is_label] # ?K2) [] pv s = Some (cs, pv', s')"
    by blast
  from rmatch_Grp_ClsE[OF h0]
  obtain c s1 where c: "is_label c" and h1: "rmatch ?K2 [(1, [c])] (Some c) s1 = Some (cs, pv', s')"
    by blast
  from rmatch_ClsE[OF h1]
  obtain pv2 s2 where h2: "rmatch (Star is_space # ?K3) [(1, [c])] pv2 s2 = Some (cs, pv', s')"
    by blast
  from rmatch_Star_split[OF h2]
  obtain pv3 s3 where h3: "rmatch ?K3 [(1, [c])] pv3 s3 = Some (cs, pv', s')"
    by blast
  have "\<exists>g. cs = (2, g) # [(1, [c])]"
    by (rule rmatch_Grp_Star_end[OF h3]) simp
  then show ?thesis using c by blast
qed

lemma answer_pattern_shape:
  assumes "rmatch answer_pattern [] pv s = Some (cs, pv', s')"
  shows "\<exists>c g. cs = [(2, g), (1, [c])] \<and> is_label c"
proof -
  let ?K3 = "[Grp 2 [Star not_newline], Eol]"
  let ?K2 = "Star is_sep # Grp 1 [Cls is_label] # Opt is_dot_paren # Star is_space # ?K3"
  have "rmatch (Bol # Star is_space # word_ci ''Answer'' @ ?K2) [] pv s = Some (cs, pv', s')"
    using assms by (simp add: answer_pattern_def del: word_ci_Cons)
  from rmatch_BolE[OF this]
  have h0: "rmatch (Star is_space # word_ci ''Answer'' @ ?K2) [] pv s = Some (cs, pv', s')"
    by blast
  from rmatch_Star_split[OF h0]
  obtain pv1 s1 where h1: "rmatch (word_ci ''Answer'' @ ?K2) [] pv1 s1 = Some (cs, pv', s')"
    by blast
  from rmatch_word_ci[OF h1]
  obtain pv2 s2 where h2: "rmatch ?K2 [] pv2 s2 = Some (cs, pv', s')"
    by blast
  from rmatch_Star_split[OF h2]
  obtain pv3 s3 where h3: "rmatch (Grp 1 [Cls is_label] # Opt is_dot_paren # Star is_space # ?K3) [] pv3 s3 = Some (cs, pv', s')"
    by blast
  from rmatch_Grp_ClsE[OF h3]
  obtain c s4 where c: "is_label c" and h4: "rmatch (Opt is_dot_paren # Star is_space # ?K3) [(1, [c])] (Some c) s4 = Some (cs, pv', s')"
    by blast
  from rmatch_Opt_split[OF h4]
  obtain pv5 s5 where h5: "rmatch (Star is_space # ?K3) [(1, [c])] pv5 s5 = Some (cs, pv', s')"
    by blast
  from rmatch_Star_split[OF h5]
  obtain pv6 s6 where h6: "rmatch ?K3 [(1, [c])] pv6 s6 = Some (cs, pv', s')"
    by blast
  have "\<exists>g. cs = (2, g) # [(1, [c])]"
    by (rule rmatch_Grp_Star_end[OF h6]) simp
  then show ?thesis using c by blast
qed

lemma explanation_pattern_shape:
  assumes "rmatch explanation_pattern [] pv s = Some (cs, pv', s')"
  shows "\<exists>g. cs = [(1, g)]"
proof -
  let ?K3 = "[Grp 1 [Star not_newline], Eol]"
  have "rmatch (Bol # Star is_space # word_ci ''Explanation'' @ Star is_sep # ?K3) [] pv s = Some (cs, pv', s')"
    using assms by (simp add: explanation_pattern_def del: word_ci_Cons)
  from rmatch_BolE[OF this]
  have h0: "rmatch (Star is_space # word_ci ''Explanation'' @ Star is_sep # ?K3) [] pv s = Some (cs, pv', s')"
    by blast
  from rmatch_Star_split[OF h0]
  obtain pv1 s1 where h1: "rmatch (word_ci ''Explanation'' @ Star is_sep # ?K3) [] pv1 s1 = Some (cs, pv', s')"
    by blast
  from rmatch_word_ci[OF h1]
  obtain pv2 s2 where h2: "rmatch (Star is_sep # ?K3) [] pv2 s2 = Some (cs, pv', s')"
    by blast
  from rmatch_Star_split[OF h2]
  obtain pv3 s3 where h3: "rmatch ?K3 [] pv3 s3 = Some (cs, pv', s')"
    by blast
  show ?thesis
    by (rule rmatch_Grp_Star_end[OF h3]) simp
qed

lemma search_from_rmatch:
  "search_from p pv s = Some (pre, cs, pv', s') \<Longrightarrow>
   \<exists>s0. s = pre @ s0 \<and> rmatch p [] (after pv pre) s0 = Some (cs, pv', s')"
proof (induction s arbitrary: pv pre)
  case Nil
  then show ?case by (auto split: option.splits)
next
  case (Cons c s)
  show ?case
  proof (cases "rmatch p [] pv (c # s)")
    case (Some r)
    then show ?thesis using Cons.prems by (auto split: prod.splits)
  next
    case None
    then obtain pre1 where p: "pre = c # pre1" "search_from p (Some c) s = Some (pre1, cs, pv', s')"
      using Cons.prems by (auto split: option.splits)
    from Cons.IH[OF p(2)] show ?thesis using p(1) by auto
  qed
qed

lemma finditer_from_rmatch:
  "(pre, cs) \<in> set (fst (finditer_from p pv s)) \<Longrightarrow>
   \<exists>pv0 s0 pv' s'. rmatch p [] pv0 s0 = Some (cs, pv', s')"
proof (induction p pv s rule: finditer_from.induct)
  case (1 p pv s)
  show ?case
  proof (cases "search_from p pv s")
    case None
    then show ?thesis using 1(3) by (simp add: finditer_from.simps[of p pv s])
  next
    case (Some a)
    obtain pre1 cs1 pv1 s1 where a: "a = (pre1, cs1, pv1, s1)" by (cases a) auto
    have hd: "\<exists>pv0 s0 pv' s'. rmatch p [] pv0 s0 = Some (cs1, pv', s')"
      using search_from_rmatch[OF Some[unfolded a]] by blast
    show ?thesis
    proof (cases "length s1 < length s")
      case True
      then have "(pre, cs) = (pre1, cs1) \<or> (pre, cs) \<in> set (fst (finditer_from p pv1 s1))"
        using 1(3) Some a by (simp add: finditer_from.simps[of p pv s] split: prod.splits)
      then show ?thesis using hd 1(1)[OF Some[unfolded a] refl refl refl True] by blast
    next
      case False
      show ?thesis
      proof (cases s)
        case Nil
        then have "(pre, cs) = (pre1, cs1)"
          using 1(3) Some a False by (simp add: finditer_from.simps[of p pv s])
        then show ?thesis using hd by blast
      next
        case (Cons c t)
        then have "(pre, cs) = (pre1, cs1) \<or> (pre, cs) \<in> set (fst (finditer_from p (Some c) t))"
          using 1(3) Some a False by (simp add: finditer_from.simps[of p pv s] split: prod.splits)
        then show ?thesis using hd 1(2)[OF Some[unfolded a] refl refl refl False Cons] by blast
      qed
    qed
  qed
qed

lemma label_caps_groups:
  "label_caps cs \<Longrightarrow> \<exists>c g. group_str cs 1 = Inr [c] \<and> group_str cs 2 = Inr g \<and> is_label c"
  by (auto simp: label_caps_def group_str_def group_def)

lemma ord_minus_a_single: "ord_minus_a [c] = Inr (int (of_char c) - 97)"
  by (simp add: ord_minus_a_def)

lemma lower_single: "lower [c] = [lower_char c]"
  by (simp add: lower_def)

lemma opt_pairs_ok:
  "\<forall>m \<in> set ms. label_caps (snd m) \<Longrightarrow>
   \<exists>pairs. opt_pairs ms = Inr pairs \<and> (\<forall>q \<in> set pairs. length (fst q) = 1)"
proof (induction ms)
  case Nil
  then show ?case by simp
next
  case (Cons m ms)
  obtain pre cs where m: "m = (pre, cs)" by (cases m) auto
  from Cons.prems have "label_caps cs" using m by simp
  from label_caps_groups[OF this]
  obtain c g where g: "group_str cs 1 = Inr [c]" "group_str cs 2 = Inr g" by blast
  from Cons obtain pairs where p: "opt_pairs ms = Inr pairs" "\<forall>q \<in> set pairs. length (fst q) = 1"
    by auto
  show ?case using m g p by (simp add: lower_def)
qed

lemma set_slot_length [simp]: "length (set_slot ol idx content) = length ol"
  by (simp add: set_slot_def)

lemma fill_slots_ok:
  "\<forall>q \<in> set pairs. length (fst q) = 1 \<Longrightarrow>
   \<exists>ol'. fill_slots ol pairs = Inr ol' \<and> length ol' = length ol"
proof (induction pairs arbitrary: ol)
  case Nil
  then show ?case by simp
next
  case (Cons q pairs)
  obtain l t where q: "q = (l, t)" by (cases q) auto
  from Cons.prems q obtain c where l: "l = [c]"
    by (cases l) auto
  from Cons.IH[of "set_slot ol (int (of_char c) - 97) t"] Cons.prems
  show ?case using q l by (simp add: ord_minus_a_single)
qed

lemma finditer_opt_label_caps:
  "\<forall>m \<in> set (finditer opt_pattern block). label_caps (snd m)"
proof
  fix m assume "m \<in> set (finditer opt_pattern block)"
  then have "(fst m, snd m) \<in> set (fst (finditer_from opt_pattern None block))"
    by (simp add: finditer_def)
  from finditer_from_rmatch[OF this]
  obtain pv0 s0 pv' s' where "rmatch opt_pattern [] pv0 s0 = Some (snd m, pv', s')"
    by blast
  from opt_pattern_shape[OF this] show "label_caps (snd m)"
    by (simp add: label_caps_def)
qed

lemma main_slots_ok: "\<exists>ol. main_slots block = Inr ol \<and> length ol = 4"
proof -
  from opt_pairs_ok[OF finditer_opt_label_caps[of block]]
  obtain pairs where p: "opt_pairs (finditer opt_pattern block) = Inr pairs"
     "\<forall>q \<in> set pairs. length (fst q) = 1" by blast
  from fill_slots_ok[OF p(2), of "[[], [], [], []]"]
  show ?thesis using p(1) by (auto simp: main_slots_def)
qed

lemma re_match_line_label_caps: "re_match line_pattern ln = Some cs \<Longrightarrow> label_caps cs"
proof -
  assume "re_match line_pattern ln = Some cs"
  then obtain pv' s' where "rmatch line_pattern [] None ln = Some (cs, pv', s')"
    by (auto simp: re_match_def)
  from line_pattern_shape[OF this] show ?thesis by (simp add: label_caps_def)
qed

lemma scan_lines_ok:
  "\<exists>ol'. scan_lines ol lns = Inr ol' \<and> length ol' = length ol"
proof (induction lns arbitrary: ol)
  case Nil
  then show ?case by simp
next
  case (Cons ln lns)
  show ?case
  proof (cases "re_match line_pattern ln")
    case None
    then show ?thesis using Cons.IH[of ol] by simp
  next
    case (Some cs)
    from label_caps_groups[OF re_match_line_label_caps[OF Some]]
    obtain c g where g: "group_str cs 1 = Inr [c]" "group_str cs 2 = Inr g" by blast
    show ?thesis
      using Some g Cons.IH[of ol] Cons.IH[of "ol[nat (int (of_char (lower_char c)) - 97) := strip g]"]
      by (simp add: lower_single ord_minus_a_single)
  qed
qed

lemma block_options_ok: "\<exists>ol. block_options block = Inr ol \<and> length ol = 4"
proof -
  obtain ol where ol: "main_slots block = Inr ol" "length ol = 4"
    using main_slots_ok by blast
  obtain ol' where "scan_lines ol (drop 1 (block_lines block)) = Inr ol'" "length ol' = length ol"
    using scan_lines_ok by blast
  then show ?thesis using ol by (simp add: block_options_def)
qed

lemma re_search_rmatch:
  "re_search p s = Some (pre, cs) \<Longrightarrow> \<exists>pv0 s0 pv' s'. rmatch p [] pv0 s0 = Some (cs, pv', s')"
proof -
  assume "re_search p s = Some (pre, cs)"
  then obtain pv' s' where "search_from p None s = Some (pre, cs, pv', s')"
    by (auto simp: re_search_def split: option.splits)
  from search_from_rmatch[OF this] show ?thesis by blast
qed

lemma answer_text_ok: "\<exists>a. answer_text block ol = Inr a"
proof (cases "re_search answer_pattern block")
  case None
  then show ?thesis by (simp add: answer_text_def)
next
  case (Some a)
  obtain pre cs where a: "a = (pre, cs)" by (cases a) auto
  from re_search_rmatch[OF Some[unfolded a]]
  obtain pv0 s0 pv' s' where "rmatch answer_pattern [] pv0 s0 = Some (cs, pv', s')" by blast
  from answer_pattern_shape[OF this] have "label_caps cs" by (simp add: label_caps_def)
  from label_caps_groups[OF this]
  obtain c g where g: "group_str cs 1 = Inr [c]" "group_str cs 2 = Inr g" by blast
  show ?thesis using Some a g
    by (simp add: answer_text_def lower_single ord_minus_a_single Let_def)
qed

lemma explanation_text_ok: "\<exists>x. explanation_text block = Inr x"
proof (cases "re_search explanation_pattern block")
  case None
  then show ?thesis by (simp add: explanation_text_def)
next
  case (Some a)
  obtain pre cs where a: "a = (pre, cs)" by (cases a) auto
  from re_search_rmatch[OF Some[unfolded a]]
  obtain pv0 s0 pv' s' where "rmatch explanation_pattern [] pv0 s0 = Some (cs, pv', s')" by blast
  from explanation_pattern_shape[OF this] obtain g where "cs = [(1, g)]" by blast
  then show ?thesis using Some a
    by (simp add: explanation_text_def group_str_def group_def)
qed

lemma splitlines_acc_nonempty: "cur \<noteq> [] \<or> s \<noteq> [] \<Longrightarrow> splitlines_acc cur s \<noteq> []"
  by (induction cur s rule: splitlines_acc.induct) auto

lemma question_text_ok: "block \<noteq> [] \<Longrightarrow> \<exists>q. question_text block = Inr q"
proof -
  assume "block \<noteq> []"
  then have "splitlines block \<noteq> []"
    by (simp add: splitlines_def splitlines_acc_nonempty)
  then show ?thesis
    by (auto simp: question_text_def split: option.splits list.splits)
qed

lemma parse_block_ok:
  assumes "block \<noteq> []"
  shows "\<exists>r. parse_block block = Inr r \<and> length (options r) = 4"
proof -
  obtain pairs where p: "opt_pairs (finditer opt_pattern block) = Inr pairs"
    using opt_pairs_ok[OF finditer_opt_label_caps[of block]] by blast
  obtain q where q: "question_text block = Inr q"
    using question_text_ok[OF assms] by blast
  obtain ol where ol: "block_options block = Inr ol" "length ol = 4"
    using block_options_ok by blast
  obtain a where a: "answer_text block ol = Inr a"
    using answer_text_ok by blast
  obtain x where x: "explanation_text block = Inr x"
    using explanation_text_ok by blast
  show ?thesis using p q ol a x by (simp add: parse_block_def)
qed

lemma parse_blocks_ok:
  "\<exists>rs. parse_blocks bs = Inr rs \<and> (\<forall>r \<in> set rs. length (options r) = 4)"
proof (induction bs)
  case Nil
  then show ?case by simp
next
  case (Cons b bs)
  then obtain rs where rs: "parse_blocks bs = Inr rs" "\<forall>r \<in> set rs. length (options r) = 4"
    by blast
  show ?case
  proof (cases "strip b = []")
    case True
    then show ?thesis using rs by simp
  next
    case False
    from parse_block_ok[OF False]
    obtain r where "parse_block (strip b) = Inr r" "length (options r) = 4" by blast
    then show ?thesis using rs False by simp
  qed
qed

lemma parse_plain_mcqs_ok:
  "\<exists>rs. parse_plain_mcqs text = Inr rs \<and> (\<forall>r \<in> set rs. length (options r) = 4)"
proof (cases "clean_text text = []")
  case True
  then show ?thesis by (simp add: parse_plain_mcqs_def)
next
  case False
  then show ?thesis using parse_blocks_ok[of "segment (clean_text text)"]
    by (simp add: parse_plain_mcqs_def)
qed

lemma find_char_None: "find_char x s = None \<longleftrightarrow> x \<notin> set s"
  by (induction s) auto



lemma rfind_char_None: "rfind_char x s = None \<longleftrightarrow> x \<notin> set s"
  using find_char_None[of x "rev s"] by (auto simp: rfind_char_def split: option.splits)






lemma fix_options_length: "length (fix_options v) = 4"
  by (cases v) (auto simp: fix_options_def)

lemma normalize_item_non_dict:
  "(\<forall>kv. item \<noteq> JObj kv) \<Longrightarrow> normalize_item item = blank_record"
  by (cases item) (auto simp: normalize_item_def blank_record_def or_empty_def fix_options_def Let_def)

lemma normalize_item_dict:
  "normalize_item (JObj kv) =
     \<lparr>question = or_empty (dict_get kv ''question''),
      options = fix_options (dict_get kv ''options''),
      answer = or_empty (dict_get kv ''answer''),
      explanation = or_empty (dict_get kv ''explanation'')\<rparr>"
  by (simp add: normalize_item_def Let_def)

lemma try_load_json_ok: "\<exists>v. try_load_json loads text = Inr v"
  by (auto simp: try_load_json_def Let_def split: sum.splits)

lemma parse_mcqs_ok: "\<exists>recs. parse_mcqs loads text = Inr recs"
proof -
  obtain v where v: "try_load_json loads text = Inr v"
    using try_load_json_ok by blast
  obtain rs where rs: "parse_plain_mcqs text = Inr rs"
    using parse_plain_mcqs_ok by blast
  show ?thesis using v rs by (cases v) (simp_all add: parse_mcqs_def)
qed

lemma parse_plain_mcqs_blank: "clean_text text = [] \<Longrightarrow> parse_plain_mcqs text = Inr []"
  by (simp add: parse_plain_mcqs_def)

text \<open>
  Claim C4. \<^verbatim>\<open>parse_mcqs\<close> and \<^verbatim>\<open>parse_plain_mcqs\<close> return a list of records for every
  text and every behaviour of \<open>loads\<close>: no branch of the model that stands for an
  exception (IndexError of \<^verbatim>\<open>splitlines()[0]\<close>, TypeError of \<^verbatim>\<open>ord\<close>, AttributeError of
  a method call on a missing group) is reachable. On the empty text and on three blanks,
  which \<^verbatim>\<open>json.loads\<close> rejects, the result is the empty list.
\<close>
theorem parse_mcqs_total:
  "(\<exists>recs. parse_mcqs loads text = Inr recs) \<and>
   (\<exists>rs. parse_plain_mcqs text = Inr rs) \<and>
   ((\<exists>e. loads [] = Inl e) \<longrightarrow> parse_mcqs loads [] = Inr []) \<and>
   ((\<exists>e. loads ''   '' = Inl e) \<longrightarrow> parse_mcqs loads ''   '' = Inr [])"
proof (intro conjI impI)
  show "\<exists>recs. parse_mcqs loads text = Inr recs" by (rule parse_mcqs_ok)
  show "\<exists>rs. parse_plain_mcqs text = Inr rs" using parse_plain_mcqs_ok by blast
next
  assume "\<exists>e. loads [] = Inl e"
  then have "try_load_json loads [] = Inr JNull"
    by (auto simp: try_load_json_def rfind_char_def)
  moreover have "parse_plain_mcqs [] = Inr []"
    by (simp add: parse_plain_mcqs_def clean_text_def strip_def lstrip_def rstrip_def)
  ultimately show "parse_mcqs loads [] = Inr []"
    by (simp add: parse_mcqs_def)
next
  assume "\<exists>e. loads ''   '' = Inl e"
  then have "try_load_json loads ''   '' = Inr JNull"
    by (auto simp: try_load_json_def rfind_char_def)
  moreover have "clean_text ''   '' = []"
    by (simp add: clean_text_def strip_def lstrip_def rstrip_def is_space_def CR_def NL_def)
  ultimately show "parse_mcqs loads ''   '' = Inr []"
    by (simp add: parse_mcqs_def parse_plain_mcqs_blank)
qed

theorem parse_mcqs_total_witness:
  "(\<exists>e. reject_loads [] = Inl e) \<and> (\<exists>e. reject_loads ''   '' = Inl e) \<and>
   parse_mcqs reject_loads [] = Inr [] \<and> parse_mcqs reject_loads ''   '' = Inr []"
  using parse_mcqs_total[of reject_loads "[]"] by (simp add: reject_loads_def)

text \<open>
  Claim C5. Every record that \<^verbatim>\<open>parse_mcqs\<close> returns has exactly four options, on the
  structured path and on the freeform path (that of \<^verbatim>\<open>parse_plain_mcqs\<close>). On the
  structured path a list under the key \<^verbatim>\<open>options\<close> is padded with empty strings when it
  has fewer than four elements and cut to its first four otherwise.
\<close>
theorem options_length_four:
  "(\<forall>recs. parse_mcqs loads text = Inr recs \<longrightarrow> (\<forall>r \<in> set recs. length (options r) = 4)) \<and>
   (\<forall>rs. parse_plain_mcqs text = Inr rs \<longrightarrow> (\<forall>r \<in> set rs. length (options r) = 4)) \<and>
   (\<forall>xs. fix_options (JArr xs) =
      (if length xs < 4 then xs @ replicate (4 - length xs) (JStr []) else take 4 xs)) \<and>
   (\<forall>kv. options (normalize_item (JObj kv)) = fix_options (dict_get kv ''options''))"
proof (intro conjI allI impI)
  fix rs assume "parse_plain_mcqs text = Inr rs"
  then show "\<forall>r \<in> set rs. length (options r) = 4"
    using parse_plain_mcqs_ok[of "text"] by auto
next
  fix recs assume a: "parse_mcqs loads text = Inr recs"
  obtain v where v: "try_load_json loads text = Inr v"
    using try_load_json_ok by blast
  obtain rs where rs: "parse_plain_mcqs text = Inr rs" "\<forall>r \<in> set rs. length (options r) = 4"
    using parse_plain_mcqs_ok by blast
  show "\<forall>r \<in> set recs. length (options r) = 4"
  proof (cases "\<exists>items. v = JArr items")
    case True
    then obtain items where "v = JArr items" by blast
    then have "recs = map normalize_item items"
      using a v by (simp add: parse_mcqs_def)
    then show ?thesis
      by (auto simp: normalize_item_def fix_options_length Let_def)
  next
    case False
    then have "recs = map plain_record rs"
      using a v rs(1) by (cases v) (simp_all add: parse_mcqs_def)
    then show ?thesis using rs(2)
      by (auto simp: plain_record_def)
  qed
next
  fix xs show "fix_options (JArr xs) =
      (if length xs < 4 then xs @ replicate (4 - length xs) (JStr []) else take 4 xs)"
    by (simp add: fix_options_def)
next
  fix kv show "options (normalize_item (JObj kv)) = fix_options (dict_get kv ''options'')"
    by (simp add: normalize_item_def Let_def)
qed

theorem options_length_four_witness:
  "parse_mcqs demo_loads ''[1]'' = Inr [blank_record] \<and>
   length (options blank_record) = 4 \<and>
   parse_plain_mcqs ''Q?'' =
     Inr [\<lparr>question = ''Q?'', options = [[], [], [], []], answer = [], explanation = []\<rparr>]"
proof -
  have a: "parse_mcqs demo_loads ''[1]'' = Inr [blank_record]"
    by (simp add: parse_mcqs_def try_load_json_def demo_loads_def normalize_item_def
                  blank_record_def or_empty_def fix_options_def Let_def)
  have b: "parse_plain_mcqs ''Q?'' =
     Inr [\<lparr>question = ''Q?'', options = [[], [], [], []], answer = [], explanation = []\<rparr>]"
    by code_simp
  from options_length_four[of demo_loads "''[1]''"] a
  have "\<forall>r \<in> set [blank_record]. length (options r) = 4" by blast
  then have "length (options blank_record) = 4" by simp
  then show ?thesis using a b by blast
qed

lemma rmatch_Star_commit:
  assumes "\<And>c t pv'. P c \<Longrightarrow> rmatch k cs pv' (c # t) = None"
  shows "rmatch (Star P # k) cs pv s = rmatch k cs (after pv (takeWhile P s)) (dropWhile P s)"
proof (induction s arbitrary: pv)
  case Nil
  then show ?case by simp
next
  case (Cons c s)
  show ?case
  proof (cases "P c")
    case False
    then show ?thesis by simp
  next
    case True
    have "rmatch k cs pv (c # s) = None" using assms[OF True] .
    then have "rmatch (Star P # k) cs pv (c # s) = rmatch (Star P # k) cs (Some c) s"
      using True by (simp split: option.splits)
    then show ?thesis using True Cons.IH[of "Some c"] by simp
  qed
qed

lemma rmatch_Star_max:
  "rmatch k cs (after pv (takeWhile P s)) (dropWhile P s) = Some r \<Longrightarrow>
   rmatch (Star P # k) cs pv s = Some r"
proof (induction s arbitrary: pv)
  case Nil
  then show ?case by simp
next
  case (Cons c s)
  show ?case
  proof (cases "P c")
    case False
    then show ?thesis using Cons.prems by simp
  next
    case True
    then have "rmatch (Star P # k) cs (Some c) s = Some r"
      using Cons.IH[of "Some c"] Cons.prems by simp
    then show ?thesis using True by simp
  qed
qed

lemma rmatch_Star_complete:
  "\<forall>c \<in> set u. P c \<Longrightarrow> rmatch k cs (after pv u) t \<noteq> None \<Longrightarrow>
   rmatch (Star P # k) cs pv (u @ t) \<noteq> None"
proof (induction u arbitrary: pv)
  case Nil
  then show ?case
  proof (cases t)
    case Nil
    then show ?thesis using Nil.prems by simp
  next
    case (Cons c t')
    then show ?thesis using Nil.prems by (auto split: option.splits)
  qed
next
  case (Cons c u)
  then have "rmatch (Star P # k) cs (Some c) (u @ t) \<noteq> None"
    by simp
  then show ?case using Cons.prems(1) by (auto split: option.splits)
qed

lemma rmatch_Lazy_unfold:
  "rmatch (Lazy P # k) cs pv s =
     (case rmatch k cs pv s of
        Some r \<Rightarrow> Some r
      | None \<Rightarrow> (case s of [] \<Rightarrow> None
                 | c # t \<Rightarrow> if P c then rmatch (Lazy P # k) cs (Some c) t else None))"
  by (cases s) (auto split: option.splits)

lemma rmatch_Lazy_skip:
  assumes "\<forall>c \<in> set u. P c"
    and "\<And>u1 u2. u = u1 @ u2 \<Longrightarrow> u2 \<noteq> [] \<Longrightarrow> rmatch k cs (after pv u1) (u2 @ t) = None"
  shows "rmatch (Lazy P # k) cs pv (u @ t) = rmatch (Lazy P # k) cs (after pv u) t"
  using assms
proof (induction u arbitrary: pv)
  case Nil
  then show ?case by simp
next
  case (Cons c u)
  have "rmatch k cs pv ((c # u) @ t) = None"
    using Cons.prems(2)[of "[]" "c # u"] by simp
  then have "rmatch (Lazy P # k) cs pv ((c # u) @ t) = rmatch (Lazy P # k) cs (Some c) (u @ t)"
    using Cons.prems(1) by simp
  moreover have "rmatch (Lazy P # k) cs (Some c) (u @ t) = rmatch (Lazy P # k) cs (after (Some c) u) t"
  proof (rule Cons.IH)
    show "\<forall>c \<in> set u. P c" using Cons.prems(1) by simp
  next
    fix u1 u2 assume "u = u1 @ u2" "u2 \<noteq> []"
    then show "rmatch k cs (after (Some c) u1) (u2 @ t) = None"
      using Cons.prems(2)[of "c # u1" u2] by simp
  qed
  ultimately show ?case by simp
qed

lemma rmatch_Lazy_total:
  assumes "\<And>pv'. rmatch k cs pv' [] \<noteq> None" "\<forall>c \<in> set s. P c"
  shows "rmatch (Lazy P # k) cs pv s \<noteq> None"
  using assms(2)
proof (induction s arbitrary: pv)
  case Nil
  then show ?case using assms(1) by simp
next
  case (Cons c s)
  then have "rmatch (Lazy P # k) cs (Some c) s \<noteq> None" by simp
  then show ?case using Cons.prems by (auto split: option.splits)
qed


lemma search_from_skip:
  assumes "\<And>u1 u2. u = u1 @ u2 \<Longrightarrow> u2 \<noteq> [] \<Longrightarrow> rmatch p [] (after pv u1) (u2 @ t) = None"
  shows "search_from p pv (u @ t) =
     (case search_from p (after pv u) t of
        None \<Rightarrow> None
      | Some (pre, r) \<Rightarrow> Some (u @ pre, r))"
  using assms
proof (induction u arbitrary: pv)
  case Nil
  then show ?case by (simp split: option.splits)
next
  case (Cons c u)
  have h: "rmatch p [] pv (c # u @ t) = None"
    using Cons.prems[of "[]" "c # u"] by simp
  have "search_from p (Some c) (u @ t) =
     (case search_from p (after (Some c) u) t of
        None \<Rightarrow> None
      | Some (pre, r) \<Rightarrow> Some (u @ pre, r))"
  proof (rule Cons.IH)
    fix u1 u2 assume "u = u1 @ u2" "u2 \<noteq> []"
    then show "rmatch p [] (after (Some c) u1) (u2 @ t) = None"
      using Cons.prems[of "c # u1" u2] by simp
  qed
  then show ?case using h by (simp split: option.splits)
qed

lemma space_not_digit: "is_space c \<Longrightarrow> \<not> is_digit c"
  by (auto simp: is_space_def is_digit_def)

lemma digit_not_dot: "is_digit c \<Longrightarrow> \<not> is_dot c"
  by (auto simp: is_dot_def is_digit_def)

lemma rmatch_marker_prefix:
  "rmatch (Bol # Star is_space # Cls is_digit # Star is_digit # Cls is_dot # K) cs pv s =
     (case marker_rest pv s of None \<Rightarrow> None | Some s4 \<Rightarrow> rmatch K cs (Some (CHR ''.'')) s4)"
proof (cases "pv = None \<or> pv = Some NL")
  case False
  then show ?thesis by (auto simp: marker_rest_def)
next
  case True
  let ?K2 = "Cls is_dot # K"
  let ?K1 = "Cls is_digit # Star is_digit # ?K2"
  let ?pv1 = "after pv (takeWhile is_space s)"
  obtain s1 where s1: "dropWhile is_space s = s1" by simp
  have c1: "rmatch (Star is_space # ?K1) cs pv s = rmatch ?K1 cs ?pv1 (dropWhile is_space s)"
    by (rule rmatch_Star_commit) (simp add: space_not_digit)
  have c2: "\<And>pv' s2. rmatch (Star is_digit # ?K2) cs pv' s2 =
        rmatch ?K2 cs (after pv' (takeWhile is_digit s2)) (dropWhile is_digit s2)"
    by (rule rmatch_Star_commit) (simp add: digit_not_dot)
  have b: "rmatch (Bol # Star is_space # ?K1) cs pv s = rmatch ?K1 cs ?pv1 s1"
    using True c1 s1 by auto
  have mr: "marker_rest pv s =
        (case s1 of
           [] \<Rightarrow> None
         | d # s2 \<Rightarrow>
            (if is_digit d then
               (case dropWhile is_digit s2 of
                  [] \<Rightarrow> None
                | c # s4 \<Rightarrow> if is_dot c then Some s4 else None)
             else None))"
    using True s1 by (simp only: marker_rest_def if_True)
  show ?thesis
  proof (cases s1)
    case Nil
    then show ?thesis by (simp only: b mr) simp
  next
    case (Cons d s2)
    show ?thesis
    proof (cases "is_digit d")
      case False
      then show ?thesis using Cons by (simp only: b mr) simp
    next
      case d: True
      obtain s3 where s3: "dropWhile is_digit s2 = s3" by simp
      have e: "rmatch ?K1 cs ?pv1 s1 = rmatch ?K2 cs (after (Some d) (takeWhile is_digit s2)) s3"
        using Cons d c2 s3 by simp
      have mr2: "marker_rest pv s =
          (case s3 of [] \<Rightarrow> None | c # s4 \<Rightarrow> if is_dot c then Some s4 else None)"
        using Cons d s3 by (simp only: mr list.case if_True)
      show ?thesis
      proof (cases s3)
        case Nil
        then show ?thesis by (simp only: b e mr2) simp
      next
        case c: (Cons c s4)
        then show ?thesis by (simp only: b e mr2) (auto simp: is_dot_def)
      qed
    qed
  qed
qed

lemma rmatch_marker_head:
  "rmatch marker_head [] pv s = None \<longleftrightarrow> marker_rest pv s = None"
  by (simp only: marker_head_def rmatch_marker_prefix) (simp split: option.splits)

lemma marker_tail_total:
  "rmatch [Star is_space, Grp 1 [Lazy any_char],
           Look [Alt [Bol, Star is_space, Cls is_digit, Star is_digit, Cls is_dot] [Eos]]] cs pv s \<noteq> None"
proof -
  let ?L = "[Alt [Bol, Star is_space, Cls is_digit, Star is_digit, Cls is_dot] [Eos]]"
  have "\<And>pv1 s1. rmatch [Grp 1 [Lazy any_char], Look ?L] cs pv1 s1 \<noteq> None"
  proof -
    fix pv1 s1
    have "rmatch (Lazy any_char # [GrpEnd 1 s1, Look ?L]) cs pv1 s1 \<noteq> None"
      by (rule rmatch_Lazy_total) (simp_all add: any_char_def)
    then show "rmatch [Grp 1 [Lazy any_char], Look ?L] cs pv1 s1 \<noteq> None" by simp
  qed
  then have "rmatch (Star is_space # [Grp 1 [Lazy any_char], Look ?L]) cs pv ([] @ s) \<noteq> None"
    by (intro rmatch_Star_complete) simp_all
  then show ?thesis by simp
qed

lemma rmatch_marker_pattern_None:
  "rmatch marker_pattern [] pv s = None \<longleftrightarrow> marker_rest pv s = None"
  using marker_tail_total
  by (simp only: marker_pattern_def rmatch_marker_prefix) (simp split: option.splits)




lemma rstrip_take: "rstrip y = take (length y - length (takeWhile is_space (rev y))) y"
  by (simp add: rstrip_def dropWhile_eq_drop rev_drop)

lemma lstrip_hd: "lstrip s \<noteq> [] \<Longrightarrow> \<not> is_space (hd (lstrip s))"
  by (simp add: lstrip_def hd_dropWhile)

lemma rstrip_last: "rstrip y \<noteq> [] \<Longrightarrow> \<not> is_space (last (rstrip y))"
proof -
  assume a: "rstrip y \<noteq> []"
  then have "dropWhile is_space (rev y) \<noteq> []" by (simp add: rstrip_def)
  then have "\<not> is_space (hd (dropWhile is_space (rev y)))" by (rule hd_dropWhile)
  then show ?thesis using a by (simp add: rstrip_def last_rev)
qed

lemma strip_hd: "strip s \<noteq> [] \<Longrightarrow> \<not> is_space (hd (strip s))"
proof -
  assume a: "strip s \<noteq> []"
  let ?y = "lstrip s"
  let ?n = "length ?y - length (takeWhile is_space (rev ?y))"
  have s: "strip s = take ?n ?y" by (simp add: strip_def rstrip_take)
  then have "?y \<noteq> []" "0 < ?n" using a by auto
  then have "hd (strip s) = hd ?y" using s by (simp add: hd_take)
  then show ?thesis using lstrip_hd[OF \<open>?y \<noteq> []\<close>] by simp
qed

lemma strip_last: "strip s \<noteq> [] \<Longrightarrow> \<not> is_space (last (strip s))"
  by (simp add: strip_def rstrip_last)

lemma strip_fixed:
  "s \<noteq> [] \<Longrightarrow> \<not> is_space (hd s) \<Longrightarrow> \<not> is_space (last s) \<Longrightarrow> strip s = s"
proof -
  assume a: "s \<noteq> []" "\<not> is_space (hd s)" "\<not> is_space (last s)"
  then have "lstrip s = s" by (cases s) (simp_all add: lstrip_def)
  moreover have "dropWhile is_space (rev s) = rev s"
    using a by (cases "rev s") (simp_all add: hd_rev)
  ultimately show ?thesis by (simp add: strip_def rstrip_def)
qed

lemma strip_strip [simp]: "strip (strip s) = strip s"
proof (cases "strip s = []")
  case True
  have "strip [] = []" by (simp add: strip_def lstrip_def rstrip_def)
  then show ?thesis using True by simp
next
  case False
  then show ?thesis using strip_fixed strip_hd strip_last by blast
qed



lemma clean_text_stripped: "strip (clean_text t) = clean_text t"
  by (simp add: clean_text_def)




lemma scenario_plain:
  "parse_plain_mcqs scenario_text =
     Inr [\<lparr>question = ''What is 2+2?'',
           options = [''3'', ''4'', ''5'', ''6\<newline>Answer: b\<newline>Explanation: Basic arithmetic''],
           answer = ''b) Explanation: Basic arithmetic'',
           explanation = ''Basic arithmetic''\<rparr>]"
  by code_simp

lemma scenario_no_bracket: "find_char (CHR ''['') scenario_text = None"
  by code_simp

text \<open>
  The scenario of claim C2 as the specification states it fails: with a decoder that
  rejects the text, the record returned is not the one announced. The fourth option is
  not \<^verbatim>\<open>6\<close> and the answer is not \<^verbatim>\<open>b) 4\<close>.
\<close>
theorem scenario_counterexample:
  "parse_mcqs reject_loads scenario_text \<noteq>
     Inr [\<lparr>question = JStr ''What is 2+2?'',
           options = [JStr ''3'', JStr ''4'', JStr ''5'', JStr ''6''],
           answer = JStr ''b) 4'', explanation = JStr ''Basic arithmetic''\<rparr>]"
proof -
  have "try_load_json reject_loads scenario_text = Inr JNull"
    by (simp add: try_load_json_def reject_loads_def scenario_no_bracket)
  then show ?thesis
    by (simp add: parse_mcqs_def scenario_plain plain_record_def)
qed

text \<open>
  Claim C2, amended. On the text of the scenario, whenever \<^verbatim>\<open>json.loads\<close> rejects it,
  \<^verbatim>\<open>parse_mcqs\<close> returns exactly one record: its question is \<^verbatim>\<open>What is 2+2?\<close>, its
  first three options are \<^verbatim>\<open>3\<close>, \<^verbatim>\<open>4\<close> and \<^verbatim>\<open>5\<close>, its fourth option is the text from
  \<^verbatim>\<open>6\<close> to the end of the block (the text of an option runs to the next option marker
  or to the end of the block), and its explanation is \<^verbatim>\<open>Basic arithmetic\<close>. The answer
  is a string that the statement leaves open.
\<close>
theorem scenario_amended:
  assumes "loads scenario_text = Inl e"
  shows "\<exists>a. parse_mcqs loads scenario_text =
     Inr [\<lparr>question = JStr ''What is 2+2?'',
           options = [JStr ''3'', JStr ''4'', JStr ''5'',
                      JStr ''6\<newline>Answer: b\<newline>Explanation: Basic arithmetic''],
           answer = JStr a, explanation = JStr ''Basic arithmetic''\<rparr>]"
proof -
  have "try_load_json loads scenario_text = Inr JNull"
    using assms by (simp add: try_load_json_def scenario_no_bracket)
  then show ?thesis
    by (simp add: parse_mcqs_def scenario_plain plain_record_def)
qed

theorem scenario_amended_witness:
  "reject_loads scenario_text = Inl JSONDecodeError \<and>
   parse_mcqs reject_loads scenario_text =
     Inr [\<lparr>question = JStr ''What is 2+2?'',
           options = [JStr ''3'', JStr ''4'', JStr ''5'',
                      JStr ''6\<newline>Answer: b\<newline>Explanation: Basic arithmetic''],
           answer = JStr ''b) Explanation: Basic arithmetic'',
           explanation = JStr ''Basic arithmetic''\<rparr>]"
proof -
  have a: "reject_loads scenario_text = Inl JSONDecodeError"
    by (simp add: reject_loads_def)
  from scenario_amended[of reject_loads JSONDecodeError, OF a] obtain x where
    x: "parse_mcqs reject_loads scenario_text =
     Inr [\<lparr>question = JStr ''What is 2+2?'',
           options = [JStr ''3'', JStr ''4'', JStr ''5'',
                      JStr ''6\<newline>Answer: b\<newline>Explanation: Basic arithmetic''],
           answer = JStr x, explanation = JStr ''Basic arithmetic''\<rparr>]"
    by blast
  have "try_load_json reject_loads scenario_text = Inr JNull"
    by (simp add: try_load_json_def reject_loads_def scenario_no_bracket)
  then have "parse_mcqs reject_loads scenario_text =
     Inr [\<lparr>question = JStr ''What is 2+2?'',
           options = [JStr ''3'', JStr ''4'', JStr ''5'',
                      JStr ''6\<newline>Answer: b\<newline>Explanation: Basic arithmetic''],
           answer = JStr ''b) Explanation: Basic arithmetic'',
           explanation = JStr ''Basic arithmetic''\<rparr>]"
    by (simp add: parse_mcqs_def scenario_plain plain_record_def)
  then show ?thesis using a x by simp
qed

text \<open>
  Claim C6, at a failing input. The answer line \<^verbatim>\<open>Answer: b\<close> carries a label and no
  trailing text, and slot \<^verbatim>\<open>b\<close> is empty, yet the answer is not the bare label: the
  \<^verbatim>\<open>\s*\<close> before the last group runs over the newline and the group takes the next
  line. Without a following line the answer is the bare label.
\<close>
theorem answer_line_crosses_newline:
  "parse_plain_mcqs ''1. Q\<newline>Answer: b\<newline>Explanation: x'' =
     Inr [\<lparr>question = ''Q'', options = [[], [], [], []],
           answer = ''b) Explanation: x'', explanation = ''x''\<rparr>] \<and>
   parse_plain_mcqs ''1. Q\<newline>Answer: b'' =
     Inr [\<lparr>question = ''Q'', options = [[], [], [], []],
           answer = ''b'', explanation = []\<rparr>]"
  by code_simp

lemma rmatch_length: "rmatch k cs pv s = Some (cs', pv', s') \<Longrightarrow> length s' \<le> length s"
  using rmatch_min_len[of k cs pv s cs' pv' s'] by simp

lemma pv_rel_same:
  assumes "\<And>c p1 s1. r = Some (c, p1, s1) \<Longrightarrow> length s1 < length s"
  shows "pv_rel pv1 pv2 s r r"
  using assms by (auto simp: pv_rel_def split: option.splits)

lemma pv_rel_consumed:
  "pv_rel pv1 pv2 (c # s) (rmatch k cs pv s) (rmatch k cs pv s)"
proof (rule pv_rel_same)
  fix c1 p1 s1 assume "rmatch k cs pv s = Some (c1, p1, s1)"
  from rmatch_length[OF this] show "length s1 < length (c # s)" by simp
qed

lemma pv_rel_None: "pv_rel pv1 pv2 s r1 r2 \<Longrightarrow> r1 = None \<longleftrightarrow> r2 = None"
  by (auto simp: pv_rel_def split: option.splits if_splits)

lemma rmatch_pv_rel:
  "list_all no_bos k \<Longrightarrow> bol pv1 = bol pv2 \<Longrightarrow>
   pv_rel pv1 pv2 s (rmatch k cs pv1 s) (rmatch k cs pv2 s)"
proof (induction k cs pv1 s arbitrary: pv2 rule: rmatch.induct)
  case (1 cs pv s)
  then show ?case by (simp add: pv_rel_def)
next
  case (2 P k cs pv)
  then show ?case by (simp add: pv_rel_def)
next
  case (3 P k cs pv c s)
  then show ?case using pv_rel_consumed[of pv pv2 c s k cs "Some c"]
    by (simp add: pv_rel_def)
next
  case (4 P k cs pv)
  then show ?case by simp
next
  case (5 P k cs pv c s)
  show ?case
  proof (cases "P c")
    case False
    then show ?thesis using 5(3)[OF False, of pv2] 5(4,5) by simp
  next
    case True
    show ?thesis
    proof (cases "rmatch (Star P # k) cs (Some c) s")
      case None
      then show ?thesis using True 5(2)[OF True None, of pv2] 5(4,5) by simp
    next
      case (Some r)
      then show ?thesis
        using True pv_rel_consumed[of pv pv2 c s "Star P # k" cs "Some c"] by simp
    qed
  qed
next
  case (6 P k cs pv)
  then show ?case by simp
next
  case (7 P k cs pv c s)
  have r: "pv_rel pv pv2 (c # s) (rmatch k cs pv (c # s)) (rmatch k cs pv2 (c # s))"
    using 7(1)[of pv2] 7(3,4) by simp
  show ?case
  proof (cases "rmatch k cs pv (c # s)")
    case (Some a)
    then obtain b where "rmatch k cs pv2 (c # s) = Some b"
      using pv_rel_None[OF r] by auto
    then show ?thesis using Some r by simp
  next
    case None
    then have n2: "rmatch k cs pv2 (c # s) = None" using pv_rel_None[OF r] by simp
    show ?thesis
    proof (cases "P c")
      case True
      then show ?thesis
        using None n2 pv_rel_consumed[of pv pv2 c s "Lazy P # k" cs "Some c"] by simp
    next
      case False
      then show ?thesis using None n2 by (simp add: pv_rel_def)
    qed
  qed
next
  case (8 P k cs pv)
  then show ?case by simp
next
  case (9 P k cs pv c s)
  show ?case
  proof (cases "P c")
    case False
    then show ?thesis using 9(3)[OF False, of pv2] 9(4,5) by simp
  next
    case True
    show ?thesis
    proof (cases "rmatch k cs (Some c) s")
      case None
      then show ?thesis using True 9(2)[OF True None, of pv2] 9(4,5) by simp
    next
      case (Some r)
      then show ?thesis
        using True pv_rel_consumed[of pv pv2 c s k cs "Some c"] by simp
    qed
  qed
next
  case (10 k cs pv s)
  then show ?case by simp
next
  case (11 k cs pv s)
  show ?case
  proof (cases "bol pv")
    case True
    then have "bol pv2" using 11 by simp
    then show ?thesis using True 11(1)[of pv2] 11(2,3) by (simp add: bol_def)
  next
    case False
    then have "\<not> bol pv2" using 11 by simp
    then show ?thesis using False by (auto simp: bol_def pv_rel_def)
  qed
next
  case (12 k cs pv s)
  show ?case
  proof (cases "s = [] \<or> hd s = NL")
    case True
    then show ?thesis using 12(1)[OF True, of pv2] 12(2,3) by simp
  next
    case False
    then show ?thesis by (simp add: pv_rel_def)
  qed
next
  case (13 k cs pv s)
  show ?case
  proof (cases "s = []")
    case True
    then show ?thesis using 13(1)[OF True, of pv2] 13(2,3) by simp
  next
    case False
    then show ?thesis by (simp add: pv_rel_def)
  qed
next
  case (14 p q k cs pv s)
  have r: "pv_rel pv pv2 s (rmatch (p @ k) cs pv s) (rmatch (p @ k) cs pv2 s)"
    using 14(1)[of pv2] 14(3,4) by simp
  show ?case
  proof (cases "rmatch (p @ k) cs pv s")
    case (Some a)
    then obtain b where "rmatch (p @ k) cs pv2 s = Some b"
      using pv_rel_None[OF r] by auto
    then show ?thesis using Some r by simp
  next
    case None
    then have "rmatch (p @ k) cs pv2 s = None" using pv_rel_None[OF r] by simp
    then show ?thesis using None 14(2)[OF None, of pv2] 14(3,4) by simp
  qed
next
  case (15 p k cs pv s)
  have r: "pv_rel pv pv2 s (rmatch p cs pv s) (rmatch p cs pv2 s)"
    using 15(1)[of pv2] 15(3,4) by simp
  show ?case
  proof (cases "rmatch p cs pv s")
    case None
    then have "rmatch p cs pv2 s = None" using pv_rel_None[OF r] by simp
    then show ?thesis using None by (simp add: pv_rel_def)
  next
    case (Some a)
    obtain c1 p1 s1 where a: "a = (c1, p1, s1)" by (cases a) auto
    obtain p2 where "rmatch p cs pv2 s = Some (c1, p2, s1)"
      using r Some a by (auto simp: pv_rel_def split: if_splits)
    then show ?thesis
      using Some a 15(2)[OF Some[unfolded a] refl refl, of pv2] 15(3,4) by simp
  qed
next
  case (16 n p k cs pv s)
  then show ?case by simp
next
  case (17 n s0 k cs pv s)
  then show ?case by simp
qed

lemma finditer_from_Some:
  assumes "search_from p pv s = Some (pre, cs, pv', s')" "length s' < length s"
  shows "finditer_from p pv s =
           ((pre, cs) # fst (finditer_from p pv' s'), snd (finditer_from p pv' s'))"
  using assms by (simp add: finditer_from.simps[of p pv s] split: prod.splits)

lemma search_from_here:
  "rmatch p [] pv s = Some (cs, pv', s') \<Longrightarrow> search_from p pv s = Some ([], cs, pv', s')"
  by (cases s) simp_all

lemma search_from_first:
  "search_from p pv s = Some (pre, r) \<Longrightarrow> pre = u1 @ u2 \<Longrightarrow> u2 \<noteq> [] \<Longrightarrow>
   rmatch p [] (after pv u1) (drop (length u1) s) = None"
proof (induction s arbitrary: pv pre u1)
  case Nil
  then show ?case by (auto split: option.splits)
next
  case (Cons c s)
  show ?case
  proof (cases "rmatch p [] pv (c # s)")
    case (Some a)
    then have "pre = []" using Cons.prems(1) by (auto split: prod.splits)
    then show ?thesis using Cons.prems by simp
  next
    case None
    then obtain pre1 where p: "pre = c # pre1" "search_from p (Some c) s = Some (pre1, r)"
      using Cons.prems(1) by (auto split: option.splits)
    show ?thesis
    proof (cases u1)
      case Nil
      then show ?thesis using None by simp
    next
      case (Cons d u1')
      then have "pre1 = u1' @ u2" "d = c" using p(1) Cons.prems(2) by simp_all
      then show ?thesis using Cons.IH[OF p(2) _ Cons.prems(3), of u1'] Cons by simp
    qed
  qed
qed

lemma marker_rest_bol: "marker_rest pv s \<noteq> None \<Longrightarrow> bol pv"
  by (auto simp: marker_rest_def bol_def split: if_splits)

lemma marker_rest_lstrip: "marker_rest pv (lstrip s) = marker_rest pv s"
  by (simp add: marker_rest_def lstrip_def)

lemma marker_rest_bol_eq: "bol pv \<Longrightarrow> marker_rest pv s = marker_rest None s"
  by (auto simp: marker_rest_def bol_def)

lemma rmatch_marker_pattern_eq:
  "rmatch marker_pattern [] pv s =
     (case marker_rest pv s of
        None \<Rightarrow> None
      | Some s4 \<Rightarrow>
          rmatch [Star is_space, Grp 1 [Lazy any_char],
                  Look [Alt [Bol, Star is_space, Cls is_digit, Star is_digit, Cls is_dot] [Eos]]]
            [] (Some (CHR ''.'')) s4)"
  by (simp only: marker_pattern_def rmatch_marker_prefix)

lemma rmatch_marker_start:
  assumes "rmatch marker_pattern [] pv s = Some r"
  shows "bol pv \<and> rmatch marker_pattern [] None s = Some r \<and>
         rmatch marker_pattern [] None (lstrip s) = Some r"
proof -
  have "marker_rest pv s \<noteq> None"
    using assms rmatch_marker_pattern_None[of pv s] by auto
  then have b: "bol pv" by (rule marker_rest_bol)
  then show ?thesis
    using assms
    by (simp add: rmatch_marker_pattern_eq[of pv] rmatch_marker_pattern_eq[of None]
          marker_rest_lstrip marker_rest_bol_eq[OF b])
qed

lemma marker_pattern_progress:
  "rmatch marker_pattern [] pv s = Some (cs, pv', s') \<Longrightarrow> length s' < length s"
  using rmatch_min_len[of marker_pattern "[]" pv s cs pv' s']
  by (simp add: marker_pattern_def)

lemma search_marker_same_start:
  assumes "search_from marker_head pv t = Some (pre, r0)"
  shows "\<exists>rest cs pv' s'. t = pre @ rest \<and>
           search_from marker_pattern pv t = Some (pre, cs, pv', s') \<and>
           rmatch marker_pattern [] (after pv pre) rest = Some (cs, pv', s')"
proof -
  obtain cs0 pv0 s0 where r0: "r0 = (cs0, pv0, s0)" by (cases r0) auto
  from search_from_rmatch[OF assms[unfolded r0]]
  obtain rest where rest: "t = pre @ rest"
      "rmatch marker_head [] (after pv pre) rest = Some (cs0, pv0, s0)" by blast
  then have "rmatch marker_pattern [] (after pv pre) rest \<noteq> None"
    using rmatch_marker_head[of "after pv pre" rest]
          rmatch_marker_pattern_None[of "after pv pre" rest] by simp
  then obtain cs pv' s' where m: "rmatch marker_pattern [] (after pv pre) rest = Some (cs, pv', s')"
    by auto
  have "search_from marker_pattern pv (pre @ rest) =
     (case search_from marker_pattern (after pv pre) rest of
        None \<Rightarrow> None
      | Some (pre', r) \<Rightarrow> Some (pre @ pre', r))"
  proof (rule search_from_skip)
    fix u1 u2 assume u: "pre = u1 @ u2" "u2 \<noteq> []"
    have "rmatch marker_head [] (after pv u1) (drop (length u1) t) = None"
      using search_from_first[OF assms u] .
    moreover have "drop (length u1) t = u2 @ rest" using rest(1) u(1) by simp
    ultimately show "rmatch marker_pattern [] (after pv u1) (u2 @ rest) = None"
      using rmatch_marker_head[of "after pv u1" "u2 @ rest"]
            rmatch_marker_pattern_None[of "after pv u1" "u2 @ rest"] by simp
  qed
  then have "search_from marker_pattern pv t = Some (pre, cs, pv', s')"
    using search_from_here[OF m] rest(1) by simp
  then show ?thesis using rest(1) m by blast
qed

lemma findall_from_first_marker:
  assumes "rmatch marker_pattern [] pv rest = Some (cs, pv', s')"
    and "search_from marker_pattern pv0 t = Some (pre, cs, pv', s')" "t = pre @ rest"
  shows "map snd (fst (finditer_from marker_pattern pv0 t)) =
         map snd (fst (finditer_from marker_pattern None rest))"
    and "map snd (fst (finditer_from marker_pattern None rest)) =
         map snd (fst (finditer_from marker_pattern None (lstrip rest)))"
    and "fst (finditer_from marker_pattern pv0 t) \<noteq> []"
proof -
  have len: "length s' < length rest" using marker_pattern_progress[OF assms(1)] .
  then have len_t: "length s' < length t" using assms(3) by simp
  have len_l: "length s' < length (lstrip rest)"
    using marker_pattern_progress[of None "lstrip rest" cs pv' s'] rmatch_marker_start[OF assms(1)]
    by simp
  have a: "finditer_from marker_pattern pv0 t =
      ((pre, cs) # fst (finditer_from marker_pattern pv' s'), snd (finditer_from marker_pattern pv' s'))"
    using finditer_from_Some[OF assms(2) len_t] .
  have "search_from marker_pattern None rest = Some ([], cs, pv', s')"
    using search_from_here rmatch_marker_start[OF assms(1)] by blast
  from finditer_from_Some[OF this len]
  have b: "finditer_from marker_pattern None rest =
      (([], cs) # fst (finditer_from marker_pattern pv' s'), snd (finditer_from marker_pattern pv' s'))" .
  have "search_from marker_pattern None (lstrip rest) = Some ([], cs, pv', s')"
    using search_from_here rmatch_marker_start[OF assms(1)] by blast
  from finditer_from_Some[OF this len_l]
  have c: "finditer_from marker_pattern None (lstrip rest) =
      (([], cs) # fst (finditer_from marker_pattern pv' s'), snd (finditer_from marker_pattern pv' s'))" .
  show "map snd (fst (finditer_from marker_pattern pv0 t)) =
         map snd (fst (finditer_from marker_pattern None rest))"
    using a b by simp
  show "map snd (fst (finditer_from marker_pattern None rest)) =
         map snd (fst (finditer_from marker_pattern None (lstrip rest)))"
    using b c by simp
  show "fst (finditer_from marker_pattern pv0 t) \<noteq> []" using a by simp
qed

lemma re_findall_snd:
  "re_findall p s = map (\<lambda>cs. case group cs 1 of Some g \<Rightarrow> g | None \<Rightarrow> []) (map snd (finditer p s))"
  by (simp add: re_findall_def case_prod_unfold comp_def)

text \<open>
  Claim C10. If the marker \<^verbatim>\<open>^\s*\d+\.\<close> first matches the cleaned text after the prefix
  \<open>pre\<close>, the blocks are those of the text without \<open>pre\<close>, and also those of that text
  with its leading white space removed, which starts with the number of the first
  marker: the records are computed from the text that starts at the first marker, and
  no character before it reaches a block.
\<close>
theorem preamble_discarded:
  assumes "re_search marker_head (clean_text text0) = Some (pre, cs0)"
  shows "\<exists>rest. clean_text text0 = pre @ rest \<and>
           segment (clean_text text0) = segment rest \<and>
           segment rest = segment (lstrip rest) \<and>
           segment rest \<noteq> [] \<and>
           parse_plain_mcqs text0 = parse_blocks (segment (lstrip rest))"
proof -
  let ?t = "clean_text text0"
  obtain pv0 s0 where "search_from marker_head None ?t = Some (pre, cs0, pv0, s0)"
    using assms by (auto simp: re_search_def split: option.splits)
  from search_marker_same_start[OF this]
  obtain rest cs pv' s' where r: "?t = pre @ rest"
      "search_from marker_pattern None ?t = Some (pre, cs, pv', s')"
      "rmatch marker_pattern [] (after None pre) rest = Some (cs, pv', s')"
    by blast
  note f = findall_from_first_marker[OF r(3) r(2) r(1)]
  have e1: "re_findall marker_pattern ?t = re_findall marker_pattern rest"
    using f(1) by (simp add: re_findall_snd finditer_def)
  have e2: "re_findall marker_pattern rest = re_findall marker_pattern (lstrip rest)"
    using f(2) by (simp add: re_findall_snd finditer_def)
  have ne: "re_findall marker_pattern ?t \<noteq> []"
    using f(3) by (simp add: re_findall_def finditer_def)
  have s1: "segment ?t = re_findall marker_pattern ?t" using ne by (simp add: segment_def)
  have s2: "segment rest = re_findall marker_pattern rest" using ne e1 by (simp add: segment_def)
  have s3: "segment (lstrip rest) = re_findall marker_pattern (lstrip rest)"
    using ne e1 e2 by (simp add: segment_def)
  have "rest \<noteq> []" using marker_pattern_progress[OF r(3)] by auto
  then have "?t \<noteq> []" using r(1) by simp
  then have "parse_plain_mcqs text0 = parse_blocks (segment ?t)"
    by (simp add: parse_plain_mcqs_def)
  then show ?thesis using r(1) s1 s2 s3 e1 e2 ne by auto
qed

theorem preamble_discarded_witness:
  "re_search marker_head (clean_text ''intro text\<newline>  1. Q\<newline>Answer: b\<newline>2. R'')
     = Some (''intro text\<newline>'', []) \<and>
   parse_plain_mcqs ''intro text\<newline>  1. Q\<newline>Answer: b\<newline>2. R'' =
     parse_blocks (segment ''1. Q\<newline>Answer: b\<newline>2. R'') \<and>
   segment ''1. Q\<newline>Answer: b\<newline>2. R'' = [''Q\<newline>Answer: b\<newline>'', ''R'']"
proof -
  let ?x = "''intro text\<newline>  1. Q\<newline>Answer: b\<newline>2. R''"
  have a: "re_search marker_head (clean_text ?x) = Some (''intro text\<newline>'', [])"
    by code_simp
  have b: "clean_text ?x = ''intro text\<newline>'' @ ''  1. Q\<newline>Answer: b\<newline>2. R''"
    by code_simp
  have c: "lstrip ''  1. Q\<newline>Answer: b\<newline>2. R'' = ''1. Q\<newline>Answer: b\<newline>2. R''"
    by code_simp
  have d: "segment ''1. Q\<newline>Answer: b\<newline>2. R'' = [''Q\<newline>Answer: b\<newline>'', ''R'']"
    by code_simp
  from preamble_discarded[OF a] obtain rest where
    r: "clean_text ?x = ''intro text\<newline>'' @ rest"
       "parse_plain_mcqs ?x = parse_blocks (segment (lstrip rest))"
    by blast
  have "rest = ''  1. Q\<newline>Answer: b\<newline>2. R''"
    using r(1) b by (simp only: same_append_eq)
  then show ?thesis using a r(2) c d by simp
qed

lemma rmatch_consumes:
  "rmatch k cs pv s = Some (cs', pv', s') \<Longrightarrow> \<exists>u. s = u @ s' \<and> pv' = after pv u"
proof (induction k cs pv s arbitrary: cs' pv' s' rule: rmatch.induct)
  case (1 cs pv s)
  then show ?case by simp
next
  case (3 P k cs pv c s)
  then have "P c" "rmatch k cs (Some c) s = Some (cs', pv', s')" by (auto split: if_splits)
  from 3(1)[OF this] obtain u where "s = u @ s'" "pv' = after (Some c) u" by blast
  then have "c # s = (c # u) @ s' \<and> pv' = after pv (c # u)" by simp
  then show ?case by blast
next
  case (5 P k cs pv c s)
  show ?case
  proof (cases "P c \<and> rmatch (Star P # k) cs (Some c) s = Some (cs', pv', s')")
    case True
    from 5(1)[OF conjunct1[OF True] conjunct2[OF True]]
    obtain u where "s = u @ s'" "pv' = after (Some c) u" by blast
    then have "c # s = (c # u) @ s' \<and> pv' = after pv (c # u)" by simp
    then show ?thesis by blast
  next
    case False
    then have "rmatch k cs pv (c # s) = Some (cs', pv', s')"
      using 5(4) by (auto split: if_splits option.splits)
    moreover have "P c \<Longrightarrow> rmatch (Star P # k) cs (Some c) s = None"
      using False 5(4) by (auto split: if_splits option.splits)
    ultimately show ?thesis using 5(2,3) by (cases "P c") auto
  qed
next
  case (7 P k cs pv c s)
  show ?case
  proof (cases "rmatch k cs pv (c # s)")
    case (Some a)
    then show ?thesis using 7(1) 7(3) by simp
  next
    case None
    then have "P c" "rmatch (Lazy P # k) cs (Some c) s = Some (cs', pv', s')"
      using 7(3) by (auto split: if_splits)
    from 7(2)[OF None this] obtain u where "s = u @ s'" "pv' = after (Some c) u" by blast
    then have "c # s = (c # u) @ s' \<and> pv' = after pv (c # u)" by simp
    then show ?thesis by blast
  qed
next
  case (9 P k cs pv c s)
  show ?case
  proof (cases "P c \<and> rmatch k cs (Some c) s = Some (cs', pv', s')")
    case True
    from 9(1)[OF conjunct1[OF True] conjunct2[OF True]]
    obtain u where "s = u @ s'" "pv' = after (Some c) u" by blast
    then have "c # s = (c # u) @ s' \<and> pv' = after pv (c # u)" by simp
    then show ?thesis by blast
  next
    case False
    then have "rmatch k cs pv (c # s) = Some (cs', pv', s')"
      using 9(4) by (auto split: if_splits option.splits)
    moreover have "P c \<Longrightarrow> rmatch k cs (Some c) s = None"
      using False 9(4) by (auto split: if_splits option.splits)
    ultimately show ?thesis using 9(2,3) by (cases "P c") auto
  qed
next
  case (14 p q k cs pv s)
  then show ?case by (auto split: option.splits)
next
  case (15 p k cs pv s)
  then show ?case by (auto split: option.splits prod.splits)
qed (auto split: if_splits)

lemma rmatch_pv_after:
  assumes "rmatch k cs pv s = Some (cs', pv', s')"
  shows "pv' = after pv (take (length s - length s') s)"
proof -
  from rmatch_consumes[OF assms] obtain u where "s = u @ s'" "pv' = after pv u" by blast
  then show ?thesis by simp
qed

lemma res_is_None [simp]: "res_is r None \<longleftrightarrow> r = None"
  by (simp add: res_is_def)

lemma res_is_Some [simp]: "res_is r (Some (cs, rest)) \<longleftrightarrow> (\<exists>pv'. r = Some (cs, pv', rest))"
  by (simp add: res_is_def)

lemma space_not_label: "is_space c \<Longrightarrow> \<not> is_label c"
  by (auto simp: is_space_def is_label_def)

lemma rmatch_Star_last:
  "rmatch [Star P] cs pv s = Some (cs, after pv (takeWhile P s), dropWhile P s)"
  by (rule rmatch_Star_max) simp

lemma label_punct_Some:
  "label_punct s = Some (c, s3) \<longleftrightarrow> (\<exists>d. s = c # d # s3 \<and> is_label c \<and> is_dot_paren d)"
  by (auto simp: label_punct_def split: list.splits)

lemma rmatch_label_punct:
  "rmatch (Cls is_label # Cls is_dot_paren # K) cs pv s =
     (case label_punct s of
        None \<Rightarrow> None
      | Some (c, s3) \<Rightarrow> rmatch K cs (Some (hd (tl s))) s3)"
  by (auto simp: label_punct_def rmatch_Cls split: list.splits)

lemma rmatch_Grp_label_punct:
  "rmatch (Grp n [Cls is_label] # Cls is_dot_paren # K) cs pv s =
     (case label_punct s of
        None \<Rightarrow> None
      | Some (c, s3) \<Rightarrow> rmatch K ((n, [c]) # cs) (Some (hd (tl s))) s3)"
  by (auto simp: label_punct_def rmatch_Cls split: list.splits)

lemma rmatch_opt_look:
  "rmatch [Alt [Cls is_newline, Star is_space, Cls is_label, Cls is_dot_paren, Star is_space] [Eos]]
      cs pv s \<noteq> None \<longleftrightarrow> opt_ahead s"
proof (cases s)
  case Nil
  then show ?thesis by (simp add: opt_ahead_def)
next
  case (Cons c s1)
  let ?K = "Cls is_label # Cls is_dot_paren # [Star is_space]"
  obtain s2 where s2: "dropWhile is_space s1 = s2" by simp
  have c1: "rmatch (Star is_space # ?K) cs (Some c) s1 =
            rmatch ?K cs (after (Some c) (takeWhile is_space s1)) s2"
    unfolding s2[symmetric] by (rule rmatch_Star_commit) (simp add: space_not_label)
  have k: "rmatch ?K cs (after (Some c) (takeWhile is_space s1)) s2 \<noteq> None \<longleftrightarrow> label_punct s2 \<noteq> None"
    by (simp only: rmatch_label_punct rmatch_Star_last split: option.splits prod.splits) auto
  have a: "opt_ahead s \<longleftrightarrow> c = NL \<and> label_punct s2 \<noteq> None"
    using Cons s2 by (simp add: opt_ahead_def)
  show ?thesis
  proof (cases "c = NL")
    case True
    have e: "rmatch [Eos] cs pv (c # s1) = None" by simp
    have f: "rmatch (Cls is_newline # Star is_space # ?K) cs pv (c # s1) =
             rmatch (Star is_space # ?K) cs (Some c) s1"
      using True by (simp add: is_newline_def)
    have "rmatch [Alt [Cls is_newline, Star is_space, Cls is_label, Cls is_dot_paren, Star is_space] [Eos]]
      cs pv s = (case rmatch (Star is_space # ?K) cs (Some c) s1 of Some r \<Rightarrow> Some r | None \<Rightarrow> None)"
      unfolding Cons by (simp only: rmatch.simps(14) append_Cons append_Nil e f)
    then show ?thesis using a True c1 k by (auto split: option.splits)
  next
    case False
    then show ?thesis using Cons a by (simp add: is_newline_def)
  qed
qed

lemma opt_stop_append: "fst (opt_stop s) @ snd (opt_stop s) = s"
  by (induction s) (auto split: prod.splits)

lemma opt_stop_length: "length (snd (opt_stop s)) \<le> length s"
  using opt_stop_append[of s] by (metis length_append le_add2)

lemma opt_ahead_snd_opt_stop: "opt_ahead (snd (opt_stop s))"
  by (induction s) (auto simp: opt_ahead_def split: prod.splits)

lemma rmatch_lazy_opt:
  assumes "s0 = pre @ s"
  shows "rmatch (Lazy any_char # [GrpEnd n s0,
           Look [Alt [Cls is_newline, Star is_space, Cls is_label, Cls is_dot_paren, Star is_space] [Eos]]])
           cs pv s =
         Some ((n, pre @ fst (opt_stop s)) # cs, after pv (fst (opt_stop s)), snd (opt_stop s))"
  using assms
proof (induction s arbitrary: pv pre)
  case Nil
  let ?L = "[Alt [Cls is_newline, Star is_space, Cls is_label, Cls is_dot_paren, Star is_space] [Eos]]"
  have "rmatch [Look ?L] ((n, pre) # cs) pv [] =
          (if rmatch ?L [] pv [] = None then None else rmatch [] ((n, pre) # cs) pv [])"
    by (rule rmatch_Look_no_grp) simp
  then show ?case using Nil rmatch_opt_look[of "[]" pv "[]"] by (simp add: opt_ahead_def)
next
  case (Cons c s)
  let ?L = "[Alt [Cls is_newline, Star is_space, Cls is_label, Cls is_dot_paren, Star is_space] [Eos]]"
  have look: "rmatch [Look ?L] ((n, pre) # cs) pv (c # s) =
          (if rmatch ?L [] pv (c # s) = None then None else rmatch [] ((n, pre) # cs) pv (c # s))"
    by (rule rmatch_Look_no_grp) simp
  have ge: "rmatch [GrpEnd n s0, Look ?L] cs pv (c # s) = rmatch [Look ?L] ((n, pre) # cs) pv (c # s)"
    using Cons.prems by simp
  show ?case
  proof (cases "opt_ahead (c # s)")
    case True
    then have "rmatch ?L [] pv (c # s) \<noteq> None" using rmatch_opt_look by blast
    then have "rmatch [GrpEnd n s0, Look ?L] cs pv (c # s) = Some ((n, pre) # cs, pv, c # s)"
      using look ge by simp
    then show ?thesis using True by simp
  next
    case False
    then have "rmatch ?L [] pv (c # s) = None" using rmatch_opt_look by blast
    then have "rmatch [GrpEnd n s0, Look ?L] cs pv (c # s) = None"
      using look ge by simp
    then have "rmatch (Lazy any_char # [GrpEnd n s0, Look ?L]) cs pv (c # s) =
               rmatch (Lazy any_char # [GrpEnd n s0, Look ?L]) cs (Some c) s"
      by (simp add: any_char_def)
    moreover have "s0 = (pre @ [c]) @ s" using Cons.prems by simp
    ultimately show ?thesis using False Cons.IH[of "pre @ [c]" "Some c"]
      by (simp split: prod.splits)
  qed
qed

lemma rmatch_grp_lazy_opt:
  "rmatch [Grp n [Lazy any_char],
           Look [Alt [Cls is_newline, Star is_space, Cls is_label, Cls is_dot_paren, Star is_space] [Eos]]]
        cs pv s =
   Some ((n, fst (opt_stop s)) # cs, after pv (fst (opt_stop s)), snd (opt_stop s))"
  using rmatch_lazy_opt[of s "[]" s n cs pv] by simp

lemma rmatch_opt_body:
  "res_is (rmatch [Star is_space, Grp 1 [Cls is_label], Cls is_dot_paren, Star is_space,
                   Grp 2 [Lazy any_char],
                   Look [Alt [Cls is_newline, Star is_space, Cls is_label, Cls is_dot_paren, Star is_space] [Eos]]]
             [] pv s)
          (map_option (\<lambda>(c, g, r). ([(2, g), (1, [c])], r)) (opt_body s))"
proof -
  let ?L = "[Alt [Cls is_newline, Star is_space, Cls is_label, Cls is_dot_paren, Star is_space] [Eos]]"
  let ?K3 = "[Grp 2 [Lazy any_char], Look ?L]"
  let ?K1 = "Grp 1 [Cls is_label] # Cls is_dot_paren # Star is_space # ?K3"
  obtain s1 where s1: "dropWhile is_space s = s1" by simp
  have c1: "rmatch (Star is_space # ?K1) [] pv s = rmatch ?K1 [] (after pv (takeWhile is_space s)) s1"
    unfolding s1[symmetric] by (rule rmatch_Star_commit) (simp add: space_not_label)
  show ?thesis
  proof (cases "label_punct s1")
    case None
    then show ?thesis using c1 s1
      by (simp add: opt_body_def rmatch_Grp_label_punct del: rmatch.simps)
  next
    case (Some a)
    obtain c s3 where a: "a = (c, s3)" by (cases a) auto
    let ?s4 = "dropWhile is_space s3"
    have "rmatch ?K3 [(1, [c])] (after (Some (hd (tl s1))) (takeWhile is_space s3)) ?s4 =
          Some ((2, fst (opt_stop ?s4)) # [(1, [c])],
                after (after (Some (hd (tl s1))) (takeWhile is_space s3)) (fst (opt_stop ?s4)),
                snd (opt_stop ?s4))"
      by (rule rmatch_grp_lazy_opt)
    from rmatch_Star_max[OF this]
    have "rmatch (Star is_space # ?K3) [(1, [c])] (Some (hd (tl s1))) s3 =
          Some ((2, fst (opt_stop ?s4)) # [(1, [c])],
                after (after (Some (hd (tl s1))) (takeWhile is_space s3)) (fst (opt_stop ?s4)),
                snd (opt_stop ?s4))" .
    then have "rmatch ?K1 [] (after pv (takeWhile is_space s)) s1 =
          Some ((2, fst (opt_stop ?s4)) # [(1, [c])],
                after (after (Some (hd (tl s1))) (takeWhile is_space s3)) (fst (opt_stop ?s4)),
                snd (opt_stop ?s4))"
      using Some a by (simp add: rmatch_Grp_label_punct del: rmatch.simps)
    then show ?thesis using c1 s1 Some a
      by (simp add: opt_body_def split: prod.splits)
  qed
qed

lemma opt_body_res:
  "opt_body s = None \<Longrightarrow>
   rmatch [Star is_space, Grp 1 [Cls is_label], Cls is_dot_paren, Star is_space,
                   Grp 2 [Lazy any_char],
                   Look [Alt [Cls is_newline, Star is_space, Cls is_label, Cls is_dot_paren, Star is_space] [Eos]]]
             [] pv s = None"
  using rmatch_opt_body[of pv s] by simp

lemma rmatch_opt_pattern:
  "res_is (rmatch opt_pattern [] pv s)
          (map_option (\<lambda>(c, g, r). ([(2, g), (1, [c])], r)) (opt_here pv s))"
proof -
  let ?L = "[Alt [Cls is_newline, Star is_space, Cls is_label, Cls is_dot_paren, Star is_space] [Eos]]"
  let ?K = "[Star is_space, Grp 1 [Cls is_label], Cls is_dot_paren, Star is_space,
                   Grp 2 [Lazy any_char], Look ?L]"
  have alt: "rmatch opt_pattern [] pv s =
        (case rmatch (Bol # ?K) [] pv s of Some r \<Rightarrow> Some r
         | None \<Rightarrow> rmatch (Cls is_nl_or_cr # ?K) [] pv s)"
    by (simp only: opt_pattern_def rmatch.simps(14) append_Cons append_Nil)
  have b1: "rmatch (Bol # ?K) [] pv s = (if bol pv then rmatch ?K [] pv s else None)"
    by (simp add: bol_def)
  have b2: "rmatch (Cls is_nl_or_cr # ?K) [] pv s =
        (case s of [] \<Rightarrow> None | x # s' \<Rightarrow> if is_nl_or_cr x then rmatch ?K [] (Some x) s' else None)"
    by (rule rmatch_Cls)
  show ?thesis
  proof (cases "bol pv \<and> opt_body s \<noteq> None")
    case True
    then obtain c g r where o: "opt_body s = Some (c, g, r)" by auto
    then obtain pv' where "rmatch ?K [] pv s = Some ([(2, g), (1, [c])], pv', r)"
      using rmatch_opt_body[of pv s] by auto
    then show ?thesis using True o alt b1 by (simp add: opt_here_def)
  next
    case False
    have n1: "rmatch (Bol # ?K) [] pv s = None"
    proof (cases "bol pv")
      case True
      then have "opt_body s = None" using False by (cases "opt_body s") auto
      from opt_body_res[OF this, of pv] show ?thesis by (simp only: b1 True if_True)
    next
      case nb: False
      then show ?thesis by (simp only: b1 if_False)
    qed
    have h: "opt_here pv s = (case s of [] \<Rightarrow> None | x # s' \<Rightarrow> if is_nl_or_cr x then opt_body s' else None)"
      using False by (auto simp: opt_here_def split: option.splits)
    show ?thesis
    proof (cases s)
      case Nil
      then show ?thesis using alt n1 b2 h by simp
    next
      case (Cons x s')
      show ?thesis
      proof (cases "is_nl_or_cr x")
        case False
        then show ?thesis using alt n1 b2 h Cons by simp
      next
        case True
        have "res_is (rmatch ?K [] (Some x) s') (map_option (\<lambda>(c, g, r). ([(2, g), (1, [c])], r)) (opt_body s'))"
          by (rule rmatch_opt_body)
        then show ?thesis using alt n1 b2 h Cons True by simp
      qed
    qed
  qed
qed

lemma rmatch_word_ci_eq:
  "rmatch (word_ci w @ k) cs pv s =
     (if starts_ci w s then rmatch k cs (after pv (take (length w) s)) (drop (length w) s) else None)"
proof (induction w arbitrary: pv s)
  case Nil
  then show ?case by simp
next
  case (Cons x w)
  show ?case
  proof (cases s)
    case Nil
    then show ?thesis by simp
  next
    case (Cons c s')
    then show ?thesis using Cons.IH[of "Some c" s'] by simp
  qed
qed

lemma take_length_dropWhile: "take (length s - length (dropWhile P s)) s = takeWhile P s"
proof -
  have "length s - length (dropWhile P s) = length (takeWhile P s)"
    using takeWhile_dropWhile_id[of P s] by (metis add_diff_cancel_right' length_append)
  then show ?thesis using takeWhile_dropWhile_id[of P s] by (metis append_eq_conv_conj)
qed

lemma rmatch_Grp_Star_Eol:
  "rmatch [Grp n [Star not_newline], Eol] cs pv s =
     Some ((n, takeWhile not_newline s) # cs, after pv (takeWhile not_newline s),
           dropWhile not_newline s)"
proof -
  have e: "dropWhile not_newline s = [] \<or> hd (dropWhile not_newline s) = NL"
    using hd_dropWhile[of not_newline s] by (auto simp: not_newline_def)
  have "rmatch [GrpEnd n s, Eol] cs (after pv (takeWhile not_newline s)) (dropWhile not_newline s) =
        Some ((n, takeWhile not_newline s) # cs, after pv (takeWhile not_newline s),
           dropWhile not_newline s)"
    using e by (auto simp: take_length_dropWhile)
  from rmatch_Star_max[OF this] show ?thesis by simp
qed

lemma rmatch_Grp_Star_end_eq:
  "rmatch [Grp n [Star P]] cs pv s =
     Some ((n, takeWhile P s) # cs, after pv (takeWhile P s), dropWhile P s)"
proof -
  have "rmatch [GrpEnd n s] cs (after pv (takeWhile P s)) (dropWhile P s) =
        Some ((n, takeWhile P s) # cs, after pv (takeWhile P s), dropWhile P s)"
    by (simp add: take_length_dropWhile)
  from rmatch_Star_max[OF this] show ?thesis by simp
qed

lemma rmatch_Opt_eq:
  assumes "\<And>pv' s'. rmatch k cs pv' s' \<noteq> None"
  shows "\<exists>pv'. rmatch (Opt is_dot_paren # k) cs pv s = rmatch k cs pv' (skip_punct s)"
proof (cases s)
  case Nil
  then show ?thesis by (auto simp: skip_punct_def)
next
  case (Cons d s')
  show ?thesis
  proof (cases "is_dot_paren d")
    case True
    obtain r where "rmatch k cs (Some d) s' = Some r" using assms[of "Some d" s'] by auto
    then have "rmatch (Opt is_dot_paren # k) cs pv s = rmatch k cs (Some d) (skip_punct s)"
      using Cons True by (simp add: skip_punct_def)
    then show ?thesis by blast
  next
    case False
    then have "rmatch (Opt is_dot_paren # k) cs pv s = rmatch k cs pv (skip_punct s)"
      using Cons by (simp add: skip_punct_def)
    then show ?thesis by blast
  qed
qed

lemma lower_char_space: "is_space c \<Longrightarrow> lower_char c = c"
  by (auto simp: is_space_def lower_char_def)

lemma lower_char_A: "lower_char (CHR ''A'') = CHR ''a''"
  by (simp add: lower_char_def char_of_eq_iff)

lemma lower_char_E: "lower_char (CHR ''E'') = CHR ''e''"
  by (simp add: lower_char_def char_of_eq_iff)

lemma space_not_A: "is_space c \<Longrightarrow> \<not> same_letter (CHR ''A'') c"
  using lower_char_space[of c] by (auto simp: same_letter_def lower_char_A is_space_def)

lemma space_not_E: "is_space c \<Longrightarrow> \<not> same_letter (CHR ''E'') c"
  using lower_char_space[of c] by (auto simp: same_letter_def lower_char_E is_space_def)

lemma sep_not_label: "is_sep c \<Longrightarrow> \<not> is_label c"
  by (auto simp: is_sep_def is_space_def is_label_def)

lemma answer_tail:
  "rmatch [Star is_space, Grp 2 [Star not_newline], Eol] cs pv s =
     Some ((2, takeWhile not_newline (dropWhile is_space s)) # cs,
           after (after pv (takeWhile is_space s)) (takeWhile not_newline (dropWhile is_space s)),
           dropWhile not_newline (dropWhile is_space s))"
  by (rule rmatch_Star_max) (rule rmatch_Grp_Star_Eol)

lemma rmatch_answer_pattern:
  "res_is (rmatch answer_pattern [] pv s)
          (map_option (\<lambda>(c, g, r). ([(2, g), (1, [c])], r)) (answer_here pv s))"
proof (cases "bol pv")
  case False
  then have "rmatch answer_pattern [] pv s = None"
    by (auto simp add: answer_pattern_def bol_def simp del: word_ci_Cons rmatch.simps(5) rmatch.simps(4))
  then show ?thesis using False by (simp add: answer_here_def)
next
  case True
  let ?T = "[Star is_space, Grp 2 [Star not_newline], Eol]"
  let ?K2 = "Star is_sep # Grp 1 [Cls is_label] # Opt is_dot_paren # ?T"
  obtain s1 where s1: "dropWhile is_space s = s1" by simp
  have b: "rmatch answer_pattern [] pv s = rmatch (Star is_space # word_ci ''Answer'' @ ?K2) [] pv s"
    using True by (simp add: answer_pattern_def bol_def del: word_ci_Cons rmatch.simps(5) rmatch.simps(4))
  have c1: "rmatch (Star is_space # word_ci ''Answer'' @ ?K2) [] pv s =
        rmatch (word_ci ''Answer'' @ ?K2) [] (after pv (takeWhile is_space s)) s1"
    unfolding s1[symmetric] by (rule rmatch_Star_commit) (simp add: space_not_A)
  show ?thesis
  proof (cases "starts_ci ''Answer'' s1")
    case False
    then show ?thesis using b c1 s1 True
      by (simp only: rmatch_word_ci_eq answer_here_def) simp
  next
    case w: True
    obtain s2 where s2: "dropWhile is_sep (drop 6 s1) = s2" by simp
    have l6: "length ''Answer'' = 6" by simp
    let ?pv1 = "after (after pv (takeWhile is_space s)) (take (length ''Answer'') s1)"
    have c2: "rmatch (word_ci ''Answer'' @ ?K2) [] (after pv (takeWhile is_space s)) s1 =
          rmatch ?K2 [] ?pv1 (drop 6 s1)"
      using w l6 by (simp only: rmatch_word_ci_eq if_True)
    have c3: "rmatch ?K2 [] ?pv1 (drop 6 s1) =
          rmatch (Grp 1 [Cls is_label] # Opt is_dot_paren # ?T) []
             (after ?pv1 (takeWhile is_sep (drop 6 s1))) s2"
      unfolding s2[symmetric] by (rule rmatch_Star_commit) (simp add: sep_not_label)
    have ah: "answer_here pv s =
        (case s2 of
           [] \<Rightarrow> None
         | c # s3 \<Rightarrow>
            (if is_label c then
               Some (c, takeWhile not_newline (dropWhile is_space (skip_punct s3)),
                        dropWhile not_newline (dropWhile is_space (skip_punct s3)))
             else None))"
      using True w s1 s2 by (simp only: answer_here_def) simp
    show ?thesis
    proof (cases s2)
      case Nil
      then show ?thesis using b c1 c2 c3 ah by simp
    next
      case (Cons c s3)
      show ?thesis
      proof (cases "is_label c")
        case False
        then show ?thesis using b c1 c2 c3 ah Cons by simp
      next
        case l: True
        have g: "rmatch (Grp 1 [Cls is_label] # Opt is_dot_paren # ?T) []
             (after ?pv1 (takeWhile is_sep (drop 6 s1))) s2 =
             rmatch (Opt is_dot_paren # ?T) [(1, [c])] (Some c) s3"
          using Cons l by simp
        have "\<And>pv' s'. rmatch ?T [(1, [c])] pv' s' \<noteq> None"
          by (simp only: answer_tail) simp
        from rmatch_Opt_eq[OF this, of "Some c" s3]
        obtain pv' where "rmatch (Opt is_dot_paren # ?T) [(1, [c])] (Some c) s3 =
            rmatch ?T [(1, [c])] pv' (skip_punct s3)" by blast
        then have "\<exists>pv''. rmatch (Opt is_dot_paren # ?T) [(1, [c])] (Some c) s3 =
            Some ([(2, takeWhile not_newline (dropWhile is_space (skip_punct s3))), (1, [c])], pv'',
                  dropWhile not_newline (dropWhile is_space (skip_punct s3)))"
          by (simp only: answer_tail) blast
        then show ?thesis using b c1 c2 c3 g ah Cons l by auto
      qed
    qed
  qed
qed

lemma rmatch_explanation_pattern:
  "res_is (rmatch explanation_pattern [] pv s)
          (map_option (\<lambda>(g, r). ([(1, g)], r)) (explanation_here pv s))"
proof (cases "bol pv")
  case False
  then have "rmatch explanation_pattern [] pv s = None"
    by (auto simp add: explanation_pattern_def bol_def simp del: word_ci_Cons rmatch.simps(5) rmatch.simps(4))
  then show ?thesis using False by (simp add: explanation_here_def)
next
  case True
  let ?T = "[Grp 1 [Star not_newline], Eol]"
  obtain s1 where s1: "dropWhile is_space s = s1" by simp
  have b: "rmatch explanation_pattern [] pv s =
        rmatch (Star is_space # word_ci ''Explanation'' @ Star is_sep # ?T) [] pv s"
    using True by (simp add: explanation_pattern_def bol_def del: word_ci_Cons rmatch.simps(5) rmatch.simps(4))
  have c1: "rmatch (Star is_space # word_ci ''Explanation'' @ Star is_sep # ?T) [] pv s =
        rmatch (word_ci ''Explanation'' @ Star is_sep # ?T) [] (after pv (takeWhile is_space s)) s1"
    unfolding s1[symmetric] by (rule rmatch_Star_commit) (simp add: space_not_E)
  show ?thesis
  proof (cases "starts_ci ''Explanation'' s1")
    case False
    then show ?thesis using b c1 s1 True
      by (simp only: rmatch_word_ci_eq explanation_here_def) simp
  next
    case w: True
    let ?s2 = "drop 11 s1"
    have l11: "length ''Explanation'' = 11" by simp
    let ?pv1 = "after (after pv (takeWhile is_space s)) (take (length ''Explanation'') s1)"
    have c2: "rmatch (word_ci ''Explanation'' @ Star is_sep # ?T) [] (after pv (takeWhile is_space s)) s1 =
          rmatch (Star is_sep # ?T) [] ?pv1 ?s2"
      using w l11 by (simp only: rmatch_word_ci_eq if_True)
    have "rmatch ?T [] (after ?pv1 (takeWhile is_sep ?s2)) (dropWhile is_sep ?s2) =
          Some ((1, takeWhile not_newline (dropWhile is_sep ?s2)) # [],
                after (after ?pv1 (takeWhile is_sep ?s2)) (takeWhile not_newline (dropWhile is_sep ?s2)),
                dropWhile not_newline (dropWhile is_sep ?s2))"
      by (rule rmatch_Grp_Star_Eol)
    from rmatch_Star_max[OF this]
    have c3: "rmatch (Star is_sep # ?T) [] ?pv1 ?s2 =
          Some ([(1, takeWhile not_newline (dropWhile is_sep ?s2))],
                after (after ?pv1 (takeWhile is_sep ?s2)) (takeWhile not_newline (dropWhile is_sep ?s2)),
                dropWhile not_newline (dropWhile is_sep ?s2))" .
    have eh: "explanation_here pv s =
        Some (takeWhile not_newline (dropWhile is_sep ?s2), dropWhile not_newline (dropWhile is_sep ?s2))"
      using True w s1 by (simp only: explanation_here_def) simp
    show ?thesis using b c1 c2 c3 eh by simp
  qed
qed

lemma re_match_line_pattern:
  "re_match line_pattern s =
     map_option (\<lambda>(c, g). [(2, g), (1, [c])]) (line_here s)"
proof -
  let ?T = "[Grp 2 [Star not_newline]]"
  have a: "rmatch line_pattern [] None s =
        rmatch (Grp 1 [Cls is_label] # Cls is_dot_paren # Star is_space # ?T) [] None s"
    by (simp add: line_pattern_def)
  show ?thesis
  proof (cases "label_punct s")
    case None
    then show ?thesis using a
      by (simp add: re_match_def line_here_def rmatch_Grp_label_punct del: rmatch.simps)
  next
    case (Some x)
    obtain c s3 where x: "x = (c, s3)" by (cases x) auto
    have "rmatch ?T [(1, [c])] (after (Some (hd (tl s))) (takeWhile is_space s3)) (dropWhile is_space s3) =
          Some ((2, takeWhile not_newline (dropWhile is_space s3)) # [(1, [c])],
                after (after (Some (hd (tl s))) (takeWhile is_space s3))
                      (takeWhile not_newline (dropWhile is_space s3)),
                dropWhile not_newline (dropWhile is_space s3))"
      by (rule rmatch_Grp_Star_end_eq)
    from rmatch_Star_max[OF this]
    have "rmatch (Star is_space # ?T) [(1, [c])] (Some (hd (tl s))) s3 =
          Some ([(2, takeWhile not_newline (dropWhile is_space s3)), (1, [c])],
                after (after (Some (hd (tl s))) (takeWhile is_space s3))
                      (takeWhile not_newline (dropWhile is_space s3)),
                dropWhile not_newline (dropWhile is_space s3))" by simp
    then show ?thesis using a Some x
      by (simp add: re_match_def line_here_def rmatch_Grp_label_punct del: rmatch.simps)
  qed
qed

lemma normalize_item_fields:
  "question (normalize_item (JObj kv)) =
     (case map_of kv ''question'' of Some v \<Rightarrow> if truthy v then v else JStr [] | None \<Rightarrow> JStr [])"
  "options (normalize_item (JObj kv)) =
     (case map_of kv ''options'' of
        Some (JArr xs) \<Rightarrow> take 4 (xs @ replicate 4 (JStr []))
      | _ \<Rightarrow> replicate 4 (JStr []))"
  "answer (normalize_item (JObj kv)) =
     (case map_of kv ''answer'' of Some v \<Rightarrow> if truthy v then v else JStr [] | None \<Rightarrow> JStr [])"
  "explanation (normalize_item (JObj kv)) =
     (case map_of kv ''explanation'' of Some v \<Rightarrow> if truthy v then v else JStr [] | None \<Rightarrow> JStr [])"
proof -
  show "question (normalize_item (JObj kv)) =
     (case map_of kv ''question'' of Some v \<Rightarrow> if truthy v then v else JStr [] | None \<Rightarrow> JStr [])"
    by (simp add: normalize_item_def Let_def or_empty_def dict_get_def split: option.splits)
  show "answer (normalize_item (JObj kv)) =
     (case map_of kv ''answer'' of Some v \<Rightarrow> if truthy v then v else JStr [] | None \<Rightarrow> JStr [])"
    by (simp add: normalize_item_def Let_def or_empty_def dict_get_def split: option.splits)
  show "explanation (normalize_item (JObj kv)) =
     (case map_of kv ''explanation'' of Some v \<Rightarrow> if truthy v then v else JStr [] | None \<Rightarrow> JStr [])"
    by (simp add: normalize_item_def Let_def or_empty_def dict_get_def split: option.splits)
  have r4: "replicate 4 (JStr []) = [JStr [], JStr [], JStr [], JStr []]"
    by (simp add: numeral_eq_Suc)
  have pad: "length xs < 4 \<Longrightarrow>
      xs @ replicate (4 - length xs) (JStr []) = take 4 (xs @ replicate 4 (JStr []))" for xs :: "json list"
  proof -
    assume a: "length xs < 4"
    have "take 4 (xs @ replicate 4 (JStr [])) = xs @ take (4 - length xs) (replicate 4 (JStr []))"
      using a by simp
    also have "take (4 - length xs) (replicate 4 (JStr [])) = replicate (4 - length xs) (JStr [])"
      by (simp add: min_def)
    finally show ?thesis by simp
  qed
  show "options (normalize_item (JObj kv)) =
     (case map_of kv ''options'' of
        Some (JArr xs) \<Rightarrow> take 4 (xs @ replicate 4 (JStr []))
      | _ \<Rightarrow> replicate 4 (JStr []))"
    using pad
    by (simp add: normalize_item_def Let_def fix_options_def dict_get_def r4
             split: option.splits json.splits)
qed

lemma normalize_item_canonical: "text_item item \<Longrightarrow> canonical (normalize_item item)"
proof (cases item)
  case (JObj kv)
  assume t: "text_item item"
  have q: "is_text (case map_of kv k of Some v \<Rightarrow> if truthy v then v else JStr [] | None \<Rightarrow> JStr [])"
    if "case map_of kv k of None \<Rightarrow> True | Some v \<Rightarrow> is_text v \<or> \<not> truthy v" for k
    using that by (auto simp: is_text_def split: option.splits)
  have o: "length (options (normalize_item (JObj kv))) = 4 \<and>
           list_all is_text (options (normalize_item (JObj kv)))"
  proof (cases "map_of kv ''options''")
    case None
    then show ?thesis by (simp add: normalize_item_fields(2) is_text_def list_all_iff)
  next
    case (Some v)
    show ?thesis
    proof (cases v)
      case (JArr xs)
      then have "list_all is_text xs" using t JObj Some by (simp add: text_item_def)
      then have "list_all is_text (take 4 (xs @ replicate 4 (JStr [])))"
        by (auto simp: list_all_iff is_text_def dest!: in_set_takeD)
      then show ?thesis using Some JArr by (simp add: normalize_item_fields(2))
    qed (use Some t JObj in \<open>simp_all add: text_item_def\<close>)
  qed
  show ?thesis using t o JObj q[of "''question''"] q[of "''answer''"] q[of "''explanation''"]
    by (simp add: canonical_def normalize_item_fields(1,3,4) text_item_def)
next
  case JNull then show ?thesis
    by (simp add: normalize_item_non_dict blank_record_def canonical_def is_text_def)
next
  case (JBool b) then show ?thesis
    by (simp add: normalize_item_non_dict blank_record_def canonical_def is_text_def)
next
  case (JInt i) then show ?thesis
    by (simp add: normalize_item_non_dict blank_record_def canonical_def is_text_def)
next
  case (JFloat f) then show ?thesis
    by (simp add: normalize_item_non_dict blank_record_def canonical_def is_text_def)
next
  case (JStr s) then show ?thesis
    by (simp add: normalize_item_non_dict blank_record_def canonical_def is_text_def)
next
  case (JArr xs) then show ?thesis
    by (simp add: normalize_item_non_dict blank_record_def canonical_def is_text_def)
qed

text \<open>
  Claim C1, at a failing input. The decoded list \<^verbatim>\<open>[{"question": 5}]\<close> gives one record
  whose question is the number 5, not a text: the record is not a canonical record.
\<close>
theorem structured_record_not_canonical:
  "parse_mcqs sample_loads ''[{\"question\": 5}]'' =
     Inr [\<lparr>question = JInt 5, options = [JStr [], JStr [], JStr [], JStr []],
           answer = JStr [], explanation = JStr []\<rparr>] \<and>
   \<not> canonical \<lparr>question = JInt 5, options = [JStr [], JStr [], JStr [], JStr []],
           answer = JStr [], explanation = JStr []\<rparr>"
  by (simp add: parse_mcqs_def try_load_json_def sample_loads_def normalize_item_def Let_def
        or_empty_def dict_get_def fix_options_def canonical_def is_text_def)

text \<open>
  Claim C1, amended. If the format detector returns a list of \<open>N\<close> elements, \<^verbatim>\<open>parse_mcqs\<close>
  returns exactly \<open>N\<close> records, in the order of the elements. For an element that is a
  \<^verbatim>\<open>dict\<close>, the question, the answer and the explanation are the value under the key,
  kept as decoded whatever its type, or the empty string when the key is missing or
  its value is false; the options are the first four elements of the list under
  \<^verbatim>\<open>options\<close>, padded with empty strings to four, or four empty strings when that value
  is missing or not a list. Any other element gives the record with every field empty.
  The record is canonical when the values present have the shape asked for. The
  records are determined by the decoded list alone: the text takes no other part, so
  the freeform parser is not consulted, also when no element is a \<^verbatim>\<open>dict\<close> and every
  record is empty.
\<close>
theorem parse_mcqs_structured:
  assumes "try_load_json loads text = Inr (JArr items)"
  shows "\<exists>recs. parse_mcqs loads text = Inr recs \<and> length recs = length items \<and>
     (\<forall>i < length items.
        (case items ! i of
           JObj kv \<Rightarrow>
             question (recs ! i) =
               (case map_of kv ''question'' of
                  Some v \<Rightarrow> if truthy v then v else JStr [] | None \<Rightarrow> JStr []) \<and>
             options (recs ! i) =
               (case map_of kv ''options'' of
                  Some (JArr xs) \<Rightarrow> take 4 (xs @ replicate 4 (JStr []))
                | _ \<Rightarrow> replicate 4 (JStr [])) \<and>
             answer (recs ! i) =
               (case map_of kv ''answer'' of
                  Some v \<Rightarrow> if truthy v then v else JStr [] | None \<Rightarrow> JStr []) \<and>
             explanation (recs ! i) =
               (case map_of kv ''explanation'' of
                  Some v \<Rightarrow> if truthy v then v else JStr [] | None \<Rightarrow> JStr [])
         | _ \<Rightarrow>
             recs ! i = \<lparr>question = JStr [], options = [JStr [], JStr [], JStr [], JStr []],
                         answer = JStr [], explanation = JStr []\<rparr>) \<and>
        (text_item (items ! i) \<longrightarrow> canonical (recs ! i))) \<and>
     (\<forall>loads' text'. try_load_json loads' text' = Inr (JArr items) \<longrightarrow>
        parse_mcqs loads' text' = Inr recs)"
proof -
  have p: "parse_mcqs loads text = Inr (map normalize_item items)"
    using assms by (simp add: parse_mcqs_def)
  have "(case items ! i of
           JObj kv \<Rightarrow>
             question (map normalize_item items ! i) =
               (case map_of kv ''question'' of
                  Some v \<Rightarrow> if truthy v then v else JStr [] | None \<Rightarrow> JStr []) \<and>
             options (map normalize_item items ! i) =
               (case map_of kv ''options'' of
                  Some (JArr xs) \<Rightarrow> take 4 (xs @ replicate 4 (JStr []))
                | _ \<Rightarrow> replicate 4 (JStr [])) \<and>
             answer (map normalize_item items ! i) =
               (case map_of kv ''answer'' of
                  Some v \<Rightarrow> if truthy v then v else JStr [] | None \<Rightarrow> JStr []) \<and>
             explanation (map normalize_item items ! i) =
               (case map_of kv ''explanation'' of
                  Some v \<Rightarrow> if truthy v then v else JStr [] | None \<Rightarrow> JStr [])
         | _ \<Rightarrow>
             map normalize_item items ! i =
               \<lparr>question = JStr [], options = [JStr [], JStr [], JStr [], JStr []],
                answer = JStr [], explanation = JStr []\<rparr>) \<and>
        (text_item (items ! i) \<longrightarrow> canonical (map normalize_item items ! i))"
    if "i < length items" for i
  proof -
    have n: "map normalize_item items ! i = normalize_item (items ! i)" using that by simp
    have c: "text_item (items ! i) \<longrightarrow> canonical (normalize_item (items ! i))"
      by (simp add: normalize_item_canonical)
    show ?thesis unfolding n using c
      by (cases "items ! i")
         (simp_all add: normalize_item_non_dict[unfolded blank_record_def] normalize_item_fields)
  qed
  moreover have "\<forall>loads' text'. try_load_json loads' text' = Inr (JArr items) \<longrightarrow>
        parse_mcqs loads' text' = Inr (map normalize_item items)"
    by (simp add: parse_mcqs_def)
  ultimately show ?thesis using p by simp
qed

lemma list4_nth:
  "length xs = 4 \<Longrightarrow> xs = [xs ! 0, xs ! 1, xs ! 2, xs ! 3]"
proof -
  assume "length xs = 4"
  then obtain a b c d where "xs = [a, b, c, d]"
    by (auto simp: length_Suc_conv numeral_eq_Suc)
  then show ?thesis by simp
qed

theorem parse_mcqs_structured_witness:
  "parse_mcqs sample_loads ''[{\"question\": \"Q1\", \"options\": [\"x\", \"y\"], \"answer\": \"a) x\", \"explanation\": 0}, {\"question\": 5, \"options\": [\"p\", \"q\", \"r\", \"s\", \"t\"]}, {\"options\": \"ab\"}, 7]'' =
     Inr [\<lparr>question = JStr ''Q1'', options = [JStr ''x'', JStr ''y'', JStr [], JStr []],
           answer = JStr ''a) x'', explanation = JStr []\<rparr>,
          \<lparr>question = JInt 5, options = [JStr ''p'', JStr ''q'', JStr ''r'', JStr ''s''],
           answer = JStr [], explanation = JStr []\<rparr>,
          \<lparr>question = JStr [], options = [JStr [], JStr [], JStr [], JStr []],
           answer = JStr [], explanation = JStr []\<rparr>,
          \<lparr>question = JStr [], options = [JStr [], JStr [], JStr [], JStr []],
           answer = JStr [], explanation = JStr []\<rparr>] \<and>
   canonical \<lparr>question = JStr ''Q1'', options = [JStr ''x'', JStr ''y'', JStr [], JStr []],
           answer = JStr ''a) x'', explanation = JStr []\<rparr> \<and>
   sample_loads ''1. Q\<newline>a) x [7]'' = Inl JSONDecodeError \<and>
   parse_mcqs sample_loads ''1. Q\<newline>a) x [7]'' =
     Inr [\<lparr>question = JStr [], options = [JStr [], JStr [], JStr [], JStr []],
           answer = JStr [], explanation = JStr []\<rparr>] \<and>
   parse_plain_mcqs ''1. Q\<newline>a) x [7]'' =
     Inr [\<lparr>question = ''Q'', options = [''x [7]'', [], [], []], answer = [], explanation = []\<rparr>]"
proof -
  let ?t = "''[{\"question\": \"Q1\", \"options\": [\"x\", \"y\"], \"answer\": \"a) x\", \"explanation\": 0}, {\"question\": 5, \"options\": [\"p\", \"q\", \"r\", \"s\", \"t\"]}, {\"options\": \"ab\"}, 7]''"
  let ?i0 = "JObj [(''question'', JStr ''Q1''), (''options'', JArr [JStr ''x'', JStr ''y'']),
                   (''answer'', JStr ''a) x''), (''explanation'', JInt 0)]"
  let ?i1 = "JObj [(''question'', JInt 5),
                   (''options'', JArr [JStr ''p'', JStr ''q'', JStr ''r'', JStr ''s'', JStr ''t''])]"
  let ?i2 = "JObj [(''options'', JStr ''ab'')]"
  let ?items = "[?i0, ?i1, ?i2, JInt 7]"
  let ?u = "''1. Q\<newline>a) x [7]''"
  have a: "try_load_json sample_loads ?t = Inr (JArr ?items)"
    by (simp add: try_load_json_def sample_loads_def)
  have rej: "sample_loads ?u = Inl JSONDecodeError"
    by (simp add: sample_loads_def)
  have sl: "slice_incl ?u 10 12 = ''[7]''"
    by (simp add: slice_incl_def)
  have fc: "find_char (CHR ''['') ?u = Some 10" "rfind_char (CHR '']'') ?u = Some 12"
    by (simp_all add: rfind_char_def)
  have b: "try_load_json sample_loads ?u = Inr (JArr [JInt 7])"
    unfolding try_load_json_def Let_def rej fc by (simp add: sl) (simp add: sample_loads_def)
  from parse_mcqs_structured[OF a]
  obtain recs where r1: "parse_mcqs sample_loads ?t = Inr recs" and r2: "length recs = length ?items"
    and r3: "\<forall>i < length ?items.
        (case ?items ! i of
           JObj kv \<Rightarrow>
             question (recs ! i) =
               (case map_of kv ''question'' of
                  Some v \<Rightarrow> if truthy v then v else JStr [] | None \<Rightarrow> JStr []) \<and>
             options (recs ! i) =
               (case map_of kv ''options'' of
                  Some (JArr xs) \<Rightarrow> take 4 (xs @ replicate 4 (JStr []))
                | _ \<Rightarrow> replicate 4 (JStr [])) \<and>
             answer (recs ! i) =
               (case map_of kv ''answer'' of
                  Some v \<Rightarrow> if truthy v then v else JStr [] | None \<Rightarrow> JStr []) \<and>
             explanation (recs ! i) =
               (case map_of kv ''explanation'' of
                  Some v \<Rightarrow> if truthy v then v else JStr [] | None \<Rightarrow> JStr [])
         | _ \<Rightarrow>
             recs ! i = \<lparr>question = JStr [], options = [JStr [], JStr [], JStr [], JStr []],
                         answer = JStr [], explanation = JStr []\<rparr>) \<and>
        (text_item (?items ! i) \<longrightarrow> canonical (recs ! i))"
    by blast
  have r4: "replicate 4 (JStr []) = [JStr [], JStr [], JStr [], JStr []]"
    by (simp add: numeral_eq_Suc)
  have e0: "recs ! 0 = \<lparr>question = JStr ''Q1'', options = [JStr ''x'', JStr ''y'', JStr [], JStr []],
           answer = JStr ''a) x'', explanation = JStr []\<rparr>"
    using r3[rule_format, of 0] by (intro mcq.equality) (simp_all add: r4)
  have e1: "recs ! 1 = \<lparr>question = JInt 5, options = [JStr ''p'', JStr ''q'', JStr ''r'', JStr ''s''],
           answer = JStr [], explanation = JStr []\<rparr>"
    using r3[rule_format, of 1] by (intro mcq.equality) (simp_all add: r4)
  have e2: "recs ! 2 = \<lparr>question = JStr [], options = [JStr [], JStr [], JStr [], JStr []],
           answer = JStr [], explanation = JStr []\<rparr>"
    using r3[rule_format, of 2] by (intro mcq.equality) (simp_all add: r4)
  have e3: "recs ! 3 = \<lparr>question = JStr [], options = [JStr [], JStr [], JStr [], JStr []],
           answer = JStr [], explanation = JStr []\<rparr>"
    using r3[rule_format, of 3] by simp
  have c0: "canonical (recs ! 0)"
    using r3[rule_format, of 0] by (simp add: text_item_def is_text_def)
  have "length recs = 4" using r2 by simp
  then have "recs = [recs ! 0, recs ! 1, recs ! 2, recs ! 3]" by (rule list4_nth)
  then have l: "recs = [\<lparr>question = JStr ''Q1'', options = [JStr ''x'', JStr ''y'', JStr [], JStr []],
           answer = JStr ''a) x'', explanation = JStr []\<rparr>,
          \<lparr>question = JInt 5, options = [JStr ''p'', JStr ''q'', JStr ''r'', JStr ''s''],
           answer = JStr [], explanation = JStr []\<rparr>,
          \<lparr>question = JStr [], options = [JStr [], JStr [], JStr [], JStr []],
           answer = JStr [], explanation = JStr []\<rparr>,
          \<lparr>question = JStr [], options = [JStr [], JStr [], JStr [], JStr []],
           answer = JStr [], explanation = JStr []\<rparr>]"
    using e0 e1 e2 e3 by simp
  from parse_mcqs_structured[OF b]
  obtain recs' where s1: "parse_mcqs sample_loads ?u = Inr recs'" and s2: "length recs' = length [JInt 7]"
    and s3: "\<forall>i < length [JInt 7].
        (case [JInt 7] ! i of
           JObj kv \<Rightarrow>
             question (recs' ! i) =
               (case map_of kv ''question'' of
                  Some v \<Rightarrow> if truthy v then v else JStr [] | None \<Rightarrow> JStr []) \<and>
             options (recs' ! i) =
               (case map_of kv ''options'' of
                  Some (JArr xs) \<Rightarrow> take 4 (xs @ replicate 4 (JStr []))
                | _ \<Rightarrow> replicate 4 (JStr [])) \<and>
             answer (recs' ! i) =
               (case map_of kv ''answer'' of
                  Some v \<Rightarrow> if truthy v then v else JStr [] | None \<Rightarrow> JStr []) \<and>
             explanation (recs' ! i) =
               (case map_of kv ''explanation'' of
                  Some v \<Rightarrow> if truthy v then v else JStr [] | None \<Rightarrow> JStr [])
         | _ \<Rightarrow>
             recs' ! i = \<lparr>question = JStr [], options = [JStr [], JStr [], JStr [], JStr []],
                         answer = JStr [], explanation = JStr []\<rparr>) \<and>
        (text_item ([JInt 7] ! i) \<longrightarrow> canonical (recs' ! i))"
    by blast
  have "recs' ! 0 = \<lparr>question = JStr [], options = [JStr [], JStr [], JStr [], JStr []],
           answer = JStr [], explanation = JStr []\<rparr>"
    using s3[rule_format, of 0] by simp
  moreover have "recs' = [recs' ! 0]" using s2 by (cases recs') simp_all
  ultimately have l': "recs' = [\<lparr>question = JStr [], options = [JStr [], JStr [], JStr [], JStr []],
           answer = JStr [], explanation = JStr []\<rparr>]"
    by simp
  have pp: "parse_plain_mcqs ?u =
     Inr [\<lparr>question = ''Q'', options = [''x [7]'', [], [], []], answer = [], explanation = []\<rparr>]"
    by code_simp
  show ?thesis using r1 l c0 e0 rej s1 l' pp by simp
qed

end
